theory Spec2Isabelle
  imports Complex_Main "HOL-Library.Word"
begin

section \<open>JavaScript strings and regular expressions\<close>

text \<open>
  A JavaScript string is a sequence of code units; it is modelled as a \<open>string\<close> (a list of
  characters), one \<open>char\<close> per code unit. \<open>s.slice(a, b)\<close> with non-negative indices clamps
  both indices to the length and is empty when \<open>b \<le> a\<close>.
\<close>

definition sliceJS :: "'a list \<Rightarrow> nat \<Rightarrow> nat \<Rightarrow> 'a list" where
  "sliceJS s a b = take (b - a) (drop a s)"

text \<open>
  The regular expressions of \<open>src/utils/pdf.ts\<close> are transcribed into the datatype \<open>rx\<close> and
  run by a backtracking matcher. A matcher state is the current index with the capture
  groups closed so far; \<open>rmatch r s st\<close> lists, in the order backtracking tries them, the
  states in which \<open>r\<close> can finish when started in \<open>st\<close>. The head of that list is the match
  the engine reports. Quantifiers are greedy; an iteration of \<open>*\<close> that consumes nothing is
  rejected, as in ECMAScript.
\<close>

datatype rx =
    Cls "char \<Rightarrow> bool"
  | Seq rx rx
  | Alt rx rx
  | Star rx
  | Plus rx
  | Opt rx
  | Look rx
  | Eos
  | Grp rx

type_synonym mstate = "nat \<times> string list"

fun iter :: "(mstate \<Rightarrow> mstate list) \<Rightarrow> nat \<Rightarrow> mstate \<Rightarrow> mstate list" where
  "iter f 0 st = [st]"
| "iter f (Suc n) st =
     concat (map (\<lambda>st'. if fst st < fst st' then iter f n st' else []) (f st)) @ [st]"

fun rmatch :: "rx \<Rightarrow> string \<Rightarrow> mstate \<Rightarrow> mstate list" where
  "rmatch (Cls P) s (i, caps) = (if i < length s \<and> P (s ! i) then [(i + 1, caps)] else [])"
| "rmatch (Seq a b) s st = concat (map (rmatch b s) (rmatch a s st))"
| "rmatch (Alt a b) s st = rmatch a s st @ rmatch b s st"
| "rmatch (Star a) s st = iter (rmatch a s) (length s) st"
| "rmatch (Plus a) s st = concat (map (iter (rmatch a s) (length s)) (rmatch a s st))"
| "rmatch (Opt a) s st = rmatch a s st @ [st]"
| "rmatch (Look a) s st = (if rmatch a s st = [] then [] else [st])"
| "rmatch Eos s (i, caps) = (if i = length s then [(i, caps)] else [])"
| "rmatch (Grp a) s (i, caps) =
     map (\<lambda>(j, caps'). (j, caps' @ [sliceJS s i j])) (rmatch a s (i, caps))"

text \<open>
  \<open>re.exec(s)\<close> of a global regular expression whose \<open>lastIndex\<close> is \<open>i\<close>: the first index
  from \<open>i\<close> on (up to and including the length) at which the expression matches, with the
  state at the end of the match; \<open>None\<close> is JavaScript's \<open>null\<close>.
\<close>

function execFrom :: "rx \<Rightarrow> string \<Rightarrow> nat \<Rightarrow> (nat \<times> mstate) option" where
  "execFrom re s i =
     (if length s < i then None
      else (case rmatch re s (i, []) of
              [] \<Rightarrow> execFrom re s (i + 1)
            | st # _ \<Rightarrow> Some (i, st)))"
  by pat_completeness auto
termination
  by (relation "measure (\<lambda>(re, s, i). Suc (length s) - i)") auto

declare execFrom.simps [simp del]

definition isSep :: "char \<Rightarrow> bool" where
  "isSep c = (c \<in> set ''/?&#-_.'')"

definition isHex :: "char \<Rightarrow> bool" where
  "isHex c = (c \<in> set ''0123456789ABCDEFabcdef'')"

definition isDigit :: "char \<Rightarrow> bool" where
  "isDigit c = (c \<in> set ''0123456789'')"

text \<open>
  The pattern of \<open>wrapText\<close>:
  \<^verbatim>\<open>/[/?&#\-_.]|(?:%[0-9A-Fa-f]{2})+(?=[/?&#\-_.]|$)/g\<close>
\<close>

definition pctTriplet :: rx where
  "pctTriplet = Seq (Cls (\<lambda>c. c = CHR ''%'')) (Seq (Cls isHex) (Cls isHex))"

definition breakRe :: rx where
  "breakRe = Alt (Cls isSep) (Seq (Plus pctTriplet) (Look (Alt (Cls isSep) Eos)))"

fun consuming :: "rx \<Rightarrow> bool" where
  "consuming (Cls P) = True"
| "consuming (Seq a b) = (consuming a \<or> consuming b)"
| "consuming (Alt a b) = (consuming a \<and> consuming b)"
| "consuming (Plus a) = consuming a"
| "consuming (Grp a) = consuming a"
| "consuming (Star a) = False"
| "consuming (Opt a) = False"
| "consuming (Look a) = False"
| "consuming Eos = False"

subsection \<open>Matches stay inside the string and move forward\<close>

lemma iter_bounds:
  assumes f: "\<And>st st'. st' \<in> set (f st) \<Longrightarrow> fst st \<le> fst st' \<and> fst st' \<le> max (fst st) L"
  shows "st' \<in> set (iter f n st) \<Longrightarrow> fst st \<le> fst st' \<and> fst st' \<le> max (fst st) L"
proof (induction n arbitrary: st)
  case 0
  then show ?case by simp
next
  case (Suc n)
  from Suc.prems consider "st' = st"
    | m where "m \<in> set (f st)" "fst st < fst m" "st' \<in> set (iter f n m)"
    by (auto split: if_splits)
  then show ?case
  proof cases
    case 1
    then show ?thesis by simp
  next
    case 2
    from f[OF 2(1)] Suc.IH[OF 2(3)] show ?thesis by (auto simp: max_def split: if_splits)
  qed
qed

lemma rmatch_bounds:
  "st' \<in> set (rmatch r s st) \<Longrightarrow> fst st \<le> fst st' \<and> fst st' \<le> max (fst st) (length s)"
proof (induction r arbitrary: st st')
  case (Cls P)
  then show ?case by (cases st) (auto split: if_splits)
next
  case (Seq a b)
  then obtain m where "m \<in> set (rmatch a s st)" "st' \<in> set (rmatch b s m)" by auto
  with Seq.IH(1)[of m st] Seq.IH(2)[of st' m] show ?case by (auto simp: max_def split: if_splits)
next
  case (Alt a b)
  then have "st' \<in> set (rmatch a s st) \<or> st' \<in> set (rmatch b s st)" by simp
  with Alt.IH show ?case by blast
next
  case (Star a)
  then have "st' \<in> set (iter (rmatch a s) (length s) st)" by simp
  from iter_bounds[of "rmatch a s" "length s", OF _ this] Star.IH show ?case by blast
next
  case (Plus a)
  then obtain m where m: "m \<in> set (rmatch a s st)" "st' \<in> set (iter (rmatch a s) (length s) m)"
    by auto
  from iter_bounds[of "rmatch a s" "length s", OF _ m(2)] Plus.IH
  have "fst m \<le> fst st' \<and> fst st' \<le> max (fst m) (length s)" by blast
  with Plus.IH[OF m(1)] show ?case by (auto simp: max_def split: if_splits)
next
  case (Opt a)
  then consider "st' \<in> set (rmatch a s st)" | "st' = st" by auto
  then show ?case
  proof cases
    case 1
    from Opt.IH[OF 1] show ?thesis .
  next
    case 2
    then show ?thesis by simp
  qed
next
  case (Look a)
  then have "st' = st" by (simp split: if_splits)
  then show ?case by simp
next
  case Eos
  then show ?case by (cases st) (auto split: if_splits)
next
  case (Grp a)
  then show ?case by (cases st) fastforce
qed

lemma rmatch_consuming:
  "consuming r \<Longrightarrow> st' \<in> set (rmatch r s st) \<Longrightarrow> fst st < fst st'"
proof (induction r arbitrary: st st')
  case (Cls P)
  then show ?case by (cases st) (auto split: if_splits)
next
  case (Seq a b)
  then obtain m where m: "m \<in> set (rmatch a s st)" "st' \<in> set (rmatch b s m)" by auto
  from rmatch_bounds[OF m(1)] rmatch_bounds[OF m(2)] Seq.IH(1)[OF _ m(1)] Seq.IH(2)[OF _ m(2)]
    Seq.prems(1)
  show ?case by auto
next
  case (Alt a b)
  then have "st' \<in> set (rmatch a s st) \<or> st' \<in> set (rmatch b s st)" by simp
  moreover from Alt.prems(1) have "consuming a" "consuming b" by simp_all
  ultimately show ?case using Alt.IH by blast
next
  case (Plus a)
  then obtain m where m: "m \<in> set (rmatch a s st)" "st' \<in> set (iter (rmatch a s) (length s) m)"
    by auto
  from iter_bounds[of "rmatch a s" "length s", OF _ m(2)] rmatch_bounds
  have "fst m \<le> fst st'" by blast
  with Plus.IH[OF _ m(1)] Plus.prems(1) show ?case by simp
next
  case (Grp a)
  then show ?case by (cases st) fastforce
qed simp_all

lemma execFrom_past: "length s < i \<Longrightarrow> execFrom re s i = None"
  by (subst execFrom.simps) simp

lemma execFrom_unfold:
  "i \<le> length s \<Longrightarrow> execFrom re s i =
     (case rmatch re s (i, []) of [] \<Rightarrow> execFrom re s (i + 1) | st # _ \<Rightarrow> Some (i, st))"
  by (subst execFrom.simps) simp

lemma execFrom_Some:
  "execFrom re s i = Some (idx, st) \<Longrightarrow>
     i \<le> idx \<and> idx \<le> length s \<and> rmatch re s (idx, []) \<noteq> [] \<and> st = hd (rmatch re s (idx, []))
     \<and> (\<forall>j. i \<le> j \<and> j < idx \<longrightarrow> rmatch re s (j, []) = [])"
proof (induction re s i rule: execFrom.induct)
  case (1 re s i)
  have le: "\<not> length s < i"
  proof
    assume "length s < i"
    from execFrom_past[OF this, of re] "1.prems" show False by simp
  qed
  then have unf: "(case rmatch re s (i, []) of [] \<Rightarrow> execFrom re s (i + 1) | st # _ \<Rightarrow> Some (i, st))
      = Some (idx, st)"
    using "1.prems" execFrom_unfold[of i s re] by simp
  show ?case
  proof (cases "rmatch re s (i, [])")
    case Nil
    with unf have ex: "execFrom re s (i + 1) = Some (idx, st)" by simp
    from "1.IH"[OF le Nil ex] have ih: "i + 1 \<le> idx" "idx \<le> length s"
      "rmatch re s (idx, []) \<noteq> []" "st = hd (rmatch re s (idx, []))"
      "\<forall>j. i + 1 \<le> j \<and> j < idx \<longrightarrow> rmatch re s (j, []) = []" by simp_all
    have "rmatch re s (j, []) = []" if "i \<le> j" "j < idx" for j
    proof (cases "j = i")
      case True
      with Nil show ?thesis by simp
    next
      case False
      with that ih(5) show ?thesis by simp
    qed
    with ih show ?thesis by simp
  next
    case (Cons a list)
    with unf le show ?thesis by auto
  qed
qed

lemma execFrom_None:
  "execFrom re s i = None \<Longrightarrow> i \<le> j \<Longrightarrow> j \<le> length s \<Longrightarrow> rmatch re s (j, []) = []"
proof (induction re s i rule: execFrom.induct)
  case (1 re s i)
  from "1.prems" have le: "\<not> length s < i" by simp
  with "1.prems"(1) execFrom_unfold[of i s re]
  have unf: "(case rmatch re s (i, []) of [] \<Rightarrow> execFrom re s (i + 1) | st # _ \<Rightarrow> Some (i, st)) = None"
    by simp
  show ?case
  proof (cases "rmatch re s (i, [])")
    case Nil
    with unf have ex: "execFrom re s (i + 1) = None" by simp
    show ?thesis
    proof (cases "j = i")
      case True
      with Nil show ?thesis by simp
    next
      case False
      with "1.prems" have "i + 1 \<le> j" by simp
      from "1.IH"[OF le Nil ex this "1.prems"(3)] show ?thesis .
    qed
  next
    case (Cons a list)
    with unf show ?thesis by simp
  qed
qed

lemma execFrom_progress:
  assumes "consuming re" "execFrom re s i = Some (idx, st)"
  shows "i < fst st \<and> idx < fst st \<and> fst st \<le> length s"
proof -
  from execFrom_Some[OF assms(2)]
  have a: "i \<le> idx" "idx \<le> length s" "st \<in> set (rmatch re s (idx, []))"
    by (auto simp: hd_in_set)
  from rmatch_consuming[OF assms(1) a(3)] rmatch_bounds[OF a(3)] a(1,2)
  show ?thesis by (auto simp: max_def split: if_splits)
qed


section \<open>Text wrapping: \<open>wrapText\<close> (src/utils/pdf.ts)\<close>

text \<open>
  The inner loop of \<open>wrapText\<close>:
  \<^verbatim>\<open>while (end <= text.length && measureFn(text.slice(start, end)) <= maxWidth) end++;\<close>
  Widths are JavaScript numbers; the only operation on them here is the comparison \<open>\<le>\<close>, so
  the model takes any type with a comparison (for a \<open>NaN\<close> width the comparison is false).
\<close>

function growEnd :: "(string \<Rightarrow> 'a::ord) \<Rightarrow> 'a \<Rightarrow> string \<Rightarrow> nat \<Rightarrow> nat \<Rightarrow> nat" where
  "growEnd measureFn maxWidth text start endIdx =
     (if endIdx \<le> length text \<and> measureFn (sliceJS text start endIdx) \<le> maxWidth
      then growEnd measureFn maxWidth text start (endIdx + 1)
      else endIdx)"
  by pat_completeness auto
termination
  by (relation "measure (\<lambda>(m, w, text, start, endIdx). Suc (length text) - endIdx)") auto

declare growEnd.simps [simp del]

text \<open>
  The search for the last URL separator in the candidate segment: a fresh \<open>breakRe\<close> (so
  \<open>lastIndex\<close> is 0 at first), then
  \<^verbatim>\<open>while (m !== null) { bestBreak = m.index + m[0].length; m = breakRe.exec(segment); }\<close>
  The loop ends because \<open>breakRe\<close> never matches the empty string.
\<close>

function scanBreaks :: "string \<Rightarrow> nat \<Rightarrow> int \<Rightarrow> int" where
  "scanBreaks segment lastIndex bestBreak =
     (case execFrom breakRe segment lastIndex of
        None \<Rightarrow> bestBreak
      | Some (idx, (e, caps)) \<Rightarrow> scanBreaks segment e (int (idx + length (sliceJS segment idx e))))"
  by pat_completeness auto
termination
  apply (relation "measure (\<lambda>(segment, lastIndex, bestBreak). Suc (length segment) - lastIndex)")
   apply simp
  subgoal premises prems for segment lastIndex bestBreak x2 x y e caps
  proof -
    from prems have ex: "execFrom breakRe segment lastIndex = Some (x, (e, caps))" by simp
    have "consuming breakRe" by (simp add: breakRe_def pctTriplet_def)
    from execFrom_progress[OF this ex] have "lastIndex < e" "e \<le> length segment" by simp_all
    then show ?thesis by simp
  qed
  done

declare scanBreaks.simps [simp del]

text \<open>
  One iteration of the outer loop, entered only when \<open>start < text.length\<close>: the line it
  pushes and the new value of \<open>start\<close>.
\<close>

definition wrapStep :: "(string \<Rightarrow> 'a::ord) \<Rightarrow> 'a \<Rightarrow> bool \<Rightarrow> string \<Rightarrow> nat \<Rightarrow> string \<times> nat" where
  "wrapStep measureFn maxWidth urlMode text start =
     (let lineEnd = growEnd measureFn maxWidth text start (start + 1) - 1 in
      if lineEnd \<le> start then ([text ! start], start + 1)
      else if urlMode then
        (let segment = sliceJS text start lineEnd;
             bestBreak = scanBreaks segment 0 (- 1)
         in if 0 < bestBreak
            then (sliceJS text start (start + nat bestBreak), start + nat bestBreak)
            else (segment, lineEnd))
      else (sliceJS text start lineEnd, lineEnd))"

text \<open>
  The outer loop \<open>while (start < text.length)\<close>. Nothing in its shape bounds the number of
  iterations, so it is a partial function: \<open>None\<close> stands for a loop that never ends.
\<close>

partial_function (option) wrapLoop ::
  "(string \<Rightarrow> 'a::ord) \<Rightarrow> 'a \<Rightarrow> bool \<Rightarrow> string \<Rightarrow> nat \<Rightarrow> string list \<Rightarrow> string list option" where
  "wrapLoop measureFn maxWidth urlMode text start lines =
     (if start < length text then
        (case wrapStep measureFn maxWidth urlMode text start of
           (line, start') \<Rightarrow> wrapLoop measureFn maxWidth urlMode text start' (lines @ [line]))
      else Some lines)"

declare wrapLoop.simps [code]

definition wrapText :: "string \<Rightarrow> 'a::ord \<Rightarrow> (string \<Rightarrow> 'a) \<Rightarrow> bool \<Rightarrow> string list option" where
  "wrapText text maxWidth measureFn urlMode = wrapLoop measureFn maxWidth urlMode text 0 []"

subsection \<open>The URL boundary of the specification\<close>

text \<open>
  The specification's wording of the URL refinement, written independently of the regular
  expression: within the candidate, an occurrence of the URL-boundary pattern is either one
  of the characters \<^verbatim>\<open>/ ? & # - _ .\<close>, or a maximal run of \<^verbatim>\<open>%XX\<close> triplets (\<open>X\<close> a
  hexadecimal digit) immediately followed by one of those characters or by the end of the
  candidate. \<open>pctAt s i\<close>: a triplet starts at \<open>i\<close>; \<open>pctRun s i k\<close>: \<open>k\<close> triplets in a row
  start at \<open>i\<close>; \<open>specOcc seg a b\<close>: an occurrence fills the indices from \<open>a\<close> up to, not
  including, \<open>b\<close>; \<open>specBreak seg\<close>: the index immediately after the last occurrence, if
  there is one.
\<close>

definition pctAt :: "string \<Rightarrow> nat \<Rightarrow> bool" where
  "pctAt s i = (i + 3 \<le> length s \<and> s ! i = CHR ''%'' \<and> isHex (s ! (i + 1)) \<and> isHex (s ! (i + 2)))"

primrec pctRun :: "string \<Rightarrow> nat \<Rightarrow> nat \<Rightarrow> bool" where
  "pctRun s i 0 = True"
| "pctRun s i (Suc k) = (pctAt s i \<and> pctRun s (i + 3) k)"

definition specOcc :: "string \<Rightarrow> nat \<Rightarrow> nat \<Rightarrow> bool" where
  "specOcc seg a b =
     (a < b \<and> b \<le> length seg \<and>
      ((b = a + 1 \<and> isSep (seg ! a)) \<or>
       list_ex (\<lambda>k. b = a + 3 * k \<and> pctRun seg a k
                  \<and> \<not> (3 \<le> a \<and> pctAt seg (a - 3)) \<and> \<not> pctAt seg b
                  \<and> (b = length seg \<or> isSep (seg ! b)))
         [1..<Suc (length seg)]))"

definition specBreak :: "string \<Rightarrow> nat option" where
  "specBreak seg =
     (case filter (\<lambda>b. list_ex (\<lambda>a. specOcc seg a b) [0..<b]) (rev [1..<Suc (length seg)]) of
        [] \<Rightarrow> None
      | b # _ \<Rightarrow> Some b)"

text \<open>
  For the proofs: \<open>mEnd s i e\<close> says that a match of \<open>breakRe\<close> starting at index \<open>i\<close> ends
  at \<open>e\<close>, and \<open>matchEnds s li\<close> collects the ends of the matches that start at \<open>li\<close> or
  later.
\<close>

definition mEnd :: "string \<Rightarrow> nat \<Rightarrow> nat \<Rightarrow> bool" where
  "mEnd s i e =
     ((i < length s \<and> isSep (s ! i) \<and> e = i + 1) \<or>
      (\<exists>k. 1 \<le> k \<and> pctRun s i k \<and> e = i + 3 * k \<and> (e = length s \<or> (e < length s \<and> isSep (s ! e)))))"

definition matchEnds :: "string \<Rightarrow> nat \<Rightarrow> nat set" where
  "matchEnds s li = {e. \<exists>i. li \<le> i \<and> mEnd s i e}"

subsection \<open>The loops of \<open>wrapText\<close>\<close>

lemma growEnd_bounds:
  "endIdx \<le> growEnd m w t s endIdx \<and> growEnd m w t s endIdx \<le> max endIdx (Suc (length t))"
proof (induction m w t s endIdx rule: growEnd.induct)
  case (1 m w t s e)
  show ?case
  proof (cases "e \<le> length t \<and> m (sliceJS t s e) \<le> w")
    case True
    with "1.IH" show ?thesis by (subst (1 2) growEnd.simps) (auto simp: max_def)
  next
    case False
    then show ?thesis by (subst (1 2) growEnd.simps) auto
  qed
qed

lemma growEnd_passed:
  "e0 \<le> e \<Longrightarrow> e < growEnd m w t s e0 \<Longrightarrow> e \<le> length t \<and> m (sliceJS t s e) \<le> w"
proof (induction m w t s e0 rule: growEnd.induct)
  case (1 m w t s e0)
  show ?case
  proof (cases "e0 \<le> length t \<and> m (sliceJS t s e0) \<le> w")
    case True
    show ?thesis
    proof (cases "e = e0")
      case True
      with \<open>e0 \<le> length t \<and> m (sliceJS t s e0) \<le> w\<close> show ?thesis by simp
    next
      case False
      with "1.prems" have le: "e0 + 1 \<le> e" by simp
      from "1.prems"(2) True have "e < growEnd m w t s (e0 + 1)"
        by (subst (asm) growEnd.simps) simp
      from "1.IH"[OF True le this] show ?thesis .
    qed
  next
    case False
    with "1.prems" show ?thesis by (subst (asm) growEnd.simps) simp
  qed
qed

lemma growEnd_stops:
  "\<not> (growEnd m w t s e \<le> length t \<and> m (sliceJS t s (growEnd m w t s e)) \<le> w)"
proof (induction m w t s e rule: growEnd.induct)
  case (1 m w t s e)
  show ?case
  proof (cases "e \<le> length t \<and> m (sliceJS t s e) \<le> w")
    case True
    with "1.IH" show ?thesis by (subst (1 2) growEnd.simps) simp
  next
    case False
    then show ?thesis by (subst (1 2) growEnd.simps) auto
  qed
qed

lemma scanBreaks_range:
  "scanBreaks seg li best = best \<or>
   (int li < scanBreaks seg li best \<and> scanBreaks seg li best \<le> int (length seg))"
proof (induction seg li best rule: scanBreaks.induct)
  case (1 seg li best)
  show ?case
  proof (cases "execFrom breakRe seg li")
    case None
    then show ?thesis by (subst scanBreaks.simps) simp
  next
    case (Some x)
    obtain idx e caps where x: "x = (idx, (e, caps))" by (metis prod.exhaust)
    have c: "consuming breakRe" by (simp add: breakRe_def pctTriplet_def)
    from execFrom_progress[OF c Some[unfolded x]]
    have b: "li < e" "idx < e" "e \<le> length seg" by simp_all
    then have len: "idx + length (sliceJS seg idx e) = e" by (simp add: sliceJS_def)
    have step: "scanBreaks seg li best = scanBreaks seg e (int e)"
      by (subst scanBreaks.simps) (simp only: Some x option.case prod.case len)
    from "1.IH"[OF Some x[symmetric] refl, unfolded len] b show ?thesis
      unfolding step by auto
  qed
qed

lemma sliceJS_single: "i < length t \<Longrightarrow> sliceJS t i (Suc i) = [t ! i]"
  by (simp add: sliceJS_def take_Suc hd_drop_conv_nth)

lemma wrapStep_line:
  assumes "start < length text"
  shows "start < snd (wrapStep m w u text start)
       \<and> snd (wrapStep m w u text start) \<le> length text
       \<and> fst (wrapStep m w u text start) = sliceJS text start (snd (wrapStep m w u text start))"
proof -
  define lineEnd where "lineEnd = growEnd m w text start (start + 1) - 1"
  from growEnd_bounds[of "start + 1" m w "text" start] assms
  have le: "start \<le> lineEnd" "lineEnd \<le> length text" by (auto simp: lineEnd_def max_def)
  define seg where "seg = sliceJS text start lineEnd"
  have lseg: "length seg = lineEnd - start" using le by (simp add: seg_def sliceJS_def)
  define b where "b = scanBreaks seg 0 (- 1)"
  from scanBreaks_range[of seg 0 "- 1"] have br: "0 < b \<Longrightarrow> nat b \<le> lineEnd - start"
    by (auto simp: b_def lseg)
  have ws: "wrapStep m w u text start =
      (if lineEnd \<le> start then ([text ! start], start + 1)
       else if u then (if 0 < b then (sliceJS text start (start + nat b), start + nat b)
                       else (seg, lineEnd))
       else (sliceJS text start lineEnd, lineEnd))"
    unfolding wrapStep_def Let_def lineEnd_def seg_def b_def by (rule refl)
  show ?thesis
  proof (cases "lineEnd \<le> start")
    case True
    with assms show ?thesis by (simp add: ws sliceJS_single)
  next
    case False
    then show ?thesis using le br by (auto simp: ws seg_def)
  qed
qed

lemma wrapLoop_result:
  assumes Q: "\<And>start. start < length text \<Longrightarrow> Q (fst (wrapStep m w u text start))"
  shows "start \<le> length text \<Longrightarrow>
     \<exists>ls. wrapLoop m w u text start lines = Some (lines @ ls) \<and> concat ls = drop start text
        \<and> list_all Q ls"
proof (induction "length text - start" arbitrary: start lines rule: less_induct)
  case less
  show ?case
  proof (cases "start < length text")
    case False
    with less.prems show ?thesis by (subst wrapLoop.simps) simp
  next
    case True
    obtain line start' where st: "wrapStep m w u text start = (line, start')"
      by (cases "wrapStep m w u text start")
    from wrapStep_line[OF True, of m w u] st
    have p: "start < start'" "start' \<le> length text" "line = sliceJS text start start'" by simp_all
    then have "length text - start' < length text - start" using True by simp
    from less.hyps[OF this p(2), of "lines @ [line]"]
    obtain ls where ls: "wrapLoop m w u text start' (lines @ [line]) = Some ((lines @ [line]) @ ls)"
      "concat ls = drop start' text" "list_all Q ls" by blast
    have "wrapLoop m w u text start lines = Some (lines @ (line # ls))"
      using True st ls(1) by (subst wrapLoop.simps) simp
    moreover have "concat (line # ls) = drop start text"
    proof -
      have "drop start text = take (start' - start) (drop start text) @ drop (start' - start) (drop start text)"
        by (simp only: append_take_drop_id)
      also have "drop (start' - start) (drop start text) = drop start' text" using p(1) by simp
      finally show ?thesis using ls(2) p(3) by (simp add: sliceJS_def)
    qed
    moreover have "list_all Q (line # ls)" using Q[OF True] st ls(3) by simp
    ultimately show ?thesis by blast
  qed
qed

lemma wrapStep_fits:
  fixes m :: "string \<Rightarrow> 'a::preorder"
  assumes mono: "\<And>s t. m s \<le> m (s @ t)" and "start < length text"
    and "1 < length (fst (wrapStep m w u text start))"
  shows "m (fst (wrapStep m w u text start)) \<le> w"
proof -
  define lineEnd where "lineEnd = growEnd m w text start (start + 1) - 1"
  from growEnd_bounds[of "start + 1" m w "text" start] assms(2)
  have le: "start \<le> lineEnd" "lineEnd \<le> length text" by (auto simp: lineEnd_def max_def)
  define seg where "seg = sliceJS text start lineEnd"
  define b where "b = scanBreaks seg 0 (- 1)"
  have ws: "wrapStep m w u text start =
      (if lineEnd \<le> start then ([text ! start], start + 1)
       else if u then (if 0 < b then (sliceJS text start (start + nat b), start + nat b)
                       else (seg, lineEnd))
       else (sliceJS text start lineEnd, lineEnd))"
    unfolding wrapStep_def Let_def lineEnd_def seg_def b_def by (rule refl)
  have single: "\<not> lineEnd \<le> start"
  proof
    assume "lineEnd \<le> start"
    with assms(3) show False by (simp add: ws)
  qed
  then have "start + 1 \<le> lineEnd" "lineEnd < growEnd m w text start (start + 1)"
    by (auto simp: lineEnd_def)
  from growEnd_passed[OF this] have fit: "m seg \<le> w" by (simp add: seg_def)
  show ?thesis
  proof (cases "u \<and> 0 < b")
    case True
    have "sliceJS text start (start + nat b) = take (nat b) seg"
    proof -
      from scanBreaks_range[of seg 0 "- 1"] True le
      have "nat b \<le> lineEnd - start" by (auto simp: b_def seg_def sliceJS_def)
      then show ?thesis by (simp add: seg_def sliceJS_def min_def)
    qed
    moreover have "m (take (nat b) seg) \<le> m (take (nat b) seg @ drop (nat b) seg)" by (rule mono)
    ultimately have "m (sliceJS text start (start + nat b)) \<le> w"
      using fit by (auto intro: order_trans)
    then show ?thesis unfolding ws using True single by simp
  next
    case False
    then show ?thesis unfolding ws using single fit by (auto simp: seg_def)
  qed
qed

text \<open>
  C1. For every text, every maximal width, every measure function and both modes, \<open>wrapText\<close>
  returns, and the lines it returns, concatenated in order, are exactly the text.
\<close>

theorem wrapText_concat:
  "\<exists>lines. wrapText text maxWidth measureFn urlMode = Some lines \<and> concat lines = text"
proof -
  from wrapLoop_result[of "text" "\<lambda>_. True" measureFn maxWidth urlMode 0 "[]"]
  show ?thesis by (auto simp: wrapText_def)
qed

text \<open>
  C9. \<open>wrapText\<close> terminates on every input: the loop returns a list of lines, and every
  iteration moves \<open>start\<close> strictly forward without passing the end of the text; when the
  single character at \<open>start\<close> is already wider than \<open>maxWidth\<close>, the iteration emits that
  character as a line and advances \<open>start\<close> by one.
\<close>

theorem wrapText_terminates:
  "(\<exists>lines. wrapText text maxWidth measureFn urlMode = Some lines) \<and>
   (\<forall>start. start < length text \<longrightarrow>
      start < snd (wrapStep measureFn maxWidth urlMode text start) \<and>
      snd (wrapStep measureFn maxWidth urlMode text start) \<le> length text \<and>
      (\<not> measureFn (sliceJS text start (start + 1)) \<le> maxWidth \<longrightarrow>
         wrapStep measureFn maxWidth urlMode text start = ([text ! start], start + 1)))"
proof -
  from wrapLoop_result[of "text" "\<lambda>_. True" measureFn maxWidth urlMode 0 "[]"]
  have "\<exists>lines. wrapText text maxWidth measureFn urlMode = Some lines"
    by (auto simp: wrapText_def)
  moreover have "wrapStep measureFn maxWidth urlMode text start = ([text ! start], start + 1)"
    if "\<not> measureFn (sliceJS text start (start + 1)) \<le> maxWidth" for start
  proof -
    from that have "growEnd measureFn maxWidth text start (start + 1) = start + 1"
      by (subst growEnd.simps) simp
    then show ?thesis by (simp add: wrapStep_def)
  qed
  ultimately show ?thesis using wrapStep_line[of _ "text" measureFn maxWidth urlMode] by blast
qed

theorem wrapText_terminates_witness:
  "\<not> length (sliceJS ''abc'' 1 (1 + 1)) \<le> (0::nat) \<and>
   wrapStep length (0::nat) True ''abc'' 1 = (''b'', 2) \<and>
   wrapText ''abc'' (0::nat) length True = Some [''a'', ''b'', ''c'']"
proof -
  have h: "\<not> length (sliceJS ''abc'' 1 (1 + 1)) \<le> (0::nat)" by (simp add: sliceJS_def)
  have l: "(1::nat) < length ''abc''" by simp
  from wrapText_terminates[of "''abc''" "0::nat" length True] h l
  have s: "wrapStep length (0::nat) True ''abc'' 1 = ([''abc'' ! 1], 1 + 1)" by blast
  have "wrapText ''abc'' (0::nat) length True = Some [''a'', ''b'', ''c'']" by code_simp
  with h s show ?thesis by simp
qed

text \<open>
  C10. For a measure function that is monotonic (a prefix never measures more than the
  whole string), \<open>wrapText\<close> returns, and every returned line longer than one character
  measures at most \<open>maxWidth\<close>, in both modes; only one-character lines may be wider.
\<close>

theorem wrapText_lines_fit:
  fixes measureFn :: "string \<Rightarrow> 'a::preorder"
  assumes "\<And>s t. measureFn s \<le> measureFn (s @ t)"
  shows "\<exists>lines. wrapText text maxWidth measureFn urlMode = Some lines \<and>
           (\<forall>l \<in> set lines. 1 < length l \<longrightarrow> measureFn l \<le> maxWidth)"
proof -
  from wrapLoop_result[of "text" "\<lambda>l. 1 < length l \<longrightarrow> measureFn l \<le> maxWidth"
      measureFn maxWidth urlMode 0 "[]"] wrapStep_fits[of measureFn _ "text" maxWidth urlMode, OF assms]
  show ?thesis by (auto simp: wrapText_def list_all_iff)
qed

theorem wrapText_lines_fit_witness:
  "wrapText ''abc/defg'' (4::nat) length True = Some [''abc/'', ''defg''] \<and>
   length ''abc/'' \<le> (4::nat) \<and> length ''defg'' \<le> (4::nat)"
proof -
  have mono: "\<And>s t :: string. length s \<le> length (s @ t)" by simp
  have ev: "wrapText ''abc/defg'' (4::nat) length True = Some [''abc/'', ''defg'']"
    by code_simp
  from wrapText_lines_fit[of length "''abc/defg''" 4 True, OF mono] ev
  have "\<forall>l \<in> set [''abc/'', ''defg'']. 1 < length l \<longrightarrow> length l \<le> (4::nat)" by simp
  with ev show ?thesis by simp
qed

subsection \<open>The regular expression against the specification's boundary\<close>

lemma rmatch_pctTriplet:
  "rmatch pctTriplet s (i, c) = (if pctAt s i then [(i + 3, c)] else [])"
  by (auto simp: pctTriplet_def pctAt_def numeral_3_eq_3 numeral_2_eq_2)

lemma pctRun_bound: "pctRun s i k \<Longrightarrow> 1 \<le> k \<Longrightarrow> i + 3 * k \<le> length s"
proof (induction k arbitrary: i)
  case 0
  then show ?case by simp
next
  case (Suc k)
  show ?case
  proof (cases k)
    case 0
    with Suc.prems show ?thesis by (simp add: pctAt_def)
  next
    case (Suc k')
    with Suc.prems Suc.IH[of "i + 3"] show ?thesis by simp
  qed
qed

lemma iter_pctTriplet:
  "set (iter (rmatch pctTriplet s) n (i, c)) = {(i + 3 * k, c) | k. k \<le> n \<and> pctRun s i k}"
proof (induction n arbitrary: i)
  case 0
  then show ?case by auto
next
  case (Suc n)
  show ?case
  proof (cases "pctAt s i")
    case False
    have "k = 0" if "pctRun s i k" for k using that False by (cases k) auto
    then show ?thesis using False by (auto simp: rmatch_pctTriplet)
  next
    case True
    have "{(i + 3 * k, c) | k. k \<le> Suc n \<and> pctRun s i k}
        = insert (i, c) {(i + 3 + 3 * k, c) | k. k \<le> n \<and> pctRun s (i + 3) k}" (is "?L = ?R")
    proof (intro set_eqI iffI)
      fix x assume "x \<in> ?L"
      then obtain k where k: "x = (i + 3 * k, c)" "k \<le> Suc n" "pctRun s i k" by blast
      show "x \<in> ?R"
      proof (cases k)
        case 0
        with k show ?thesis by simp
      next
        case (Suc k')
        with k have "x = (i + 3 + 3 * k', c)" "k' \<le> n" "pctRun s (i + 3) k'" by simp_all
        then show ?thesis by blast
      qed
    next
      fix x assume "x \<in> ?R"
      then consider "x = (i, c)" | k where "x = (i + 3 + 3 * k, c)" "k \<le> n" "pctRun s (i + 3) k"
        by blast
      then show "x \<in> ?L"
      proof cases
        case 1
        have "x = (i + 3 * 0, c) \<and> 0 \<le> Suc n \<and> pctRun s i 0" using 1 by simp
        then show ?thesis by blast
      next
        case 2
        with True have "x = (i + 3 * Suc k, c) \<and> Suc k \<le> Suc n \<and> pctRun s i (Suc k)" by simp
        then show ?thesis by blast
      qed
    qed
    with True Suc.IH[of "i + 3"] show ?thesis by (simp add: rmatch_pctTriplet)
  qed
qed

lemma plus_pctTriplet:
  "set (rmatch (Plus pctTriplet) s (i, c)) = {(i + 3 * k, c) | k. 1 \<le> k \<and> pctRun s i k}"
proof (cases "pctAt s i")
  case False
  have "k = 0" if "pctRun s i k" for k using that False by (cases k) auto
  then show ?thesis using False by (auto simp: rmatch_pctTriplet)
next
  case True
  have "{(i + 3 * k, c) | k. 1 \<le> k \<and> pctRun s i k}
      = {(i + 3 + 3 * k, c) | k. k \<le> length s \<and> pctRun s (i + 3) k}" (is "?L = ?R")
  proof (intro set_eqI iffI)
    fix x assume "x \<in> ?L"
    then obtain k where k: "x = (i + 3 * k, c)" "1 \<le> k" "pctRun s i k" by blast
    then obtain k' where k': "k = Suc k'" by (cases k) auto
    from pctRun_bound[OF k(3) k(2)] k' have "k' \<le> length s" by simp
    with k k' have "x = (i + 3 + 3 * k', c) \<and> k' \<le> length s \<and> pctRun s (i + 3) k'" by simp
    then show "x \<in> ?R" by blast
  next
    fix x assume "x \<in> ?R"
    then obtain k where "x = (i + 3 + 3 * k, c)" "pctRun s (i + 3) k" by blast
    with True have "x = (i + 3 * Suc k, c) \<and> 1 \<le> Suc k \<and> pctRun s i (Suc k)" by simp
    then show "x \<in> ?L" by blast
  qed
  with True show ?thesis by (simp add: rmatch_pctTriplet iter_pctTriplet)
qed

lemma rmatch_lookahead:
  "rmatch (Look (Alt (Cls isSep) Eos)) s (e, c) =
     (if e = length s \<or> (e < length s \<and> isSep (s ! e)) then [(e, c)] else [])"
  by auto

lemma breakRe_match: "set (rmatch breakRe s (i, c)) = {(e, c) | e. mEnd s i e}"
proof -
  have "set (rmatch (Seq (Plus pctTriplet) (Look (Alt (Cls isSep) Eos))) s (i, c))
      = {(e, c) | e. \<exists>k. 1 \<le> k \<and> pctRun s i k \<and> e = i + 3 * k
            \<and> (e = length s \<or> (e < length s \<and> isSep (s ! e)))}"
    unfolding rmatch.simps(2) set_concat set_map plus_pctTriplet
    by (auto simp: rmatch_lookahead simp del: rmatch.simps)
  then show ?thesis
    unfolding breakRe_def rmatch.simps(3) set_append by (auto simp: mEnd_def)
qed


lemma isSep_not_pct: "isSep c \<Longrightarrow> c \<noteq> CHR ''%''"
  by (auto simp: isSep_def)

lemma isHex_not_sep: "isHex c \<Longrightarrow> \<not> isSep c"
  by (auto simp: isSep_def isHex_def)

lemma isHex_not_pct: "isHex c \<Longrightarrow> c \<noteq> CHR ''%''"
  by (auto simp: isHex_def)

lemma mEnd_cases:
  assumes "mEnd s i e"
  obtains (sep) "i < length s" "isSep (s ! i)" "e = i + 1"
  | (run) k where "1 \<le> k" "pctRun s i k" "e = i + 3 * k"
      "e = length s \<or> (e < length s \<and> isSep (s ! e))"
  using assms unfolding mEnd_def by blast

lemma mEnd_bounds: "mEnd s i e \<Longrightarrow> i < e \<and> e \<le> length s"
proof (erule mEnd_cases)
  assume "i < length s" "e = i + 1"
  then show ?thesis by simp
next
  fix k assume k: "1 \<le> k" "pctRun s i k" "e = i + 3 * k"
  from pctRun_bound[OF k(2,1)] k show ?thesis by simp
qed

lemma pctRun_longer: "pctRun s i k' \<Longrightarrow> k < k' \<Longrightarrow> pctAt s (i + 3 * k)"
proof (induction k arbitrary: i k')
  case 0
  then show ?case by (cases k') auto
next
  case (Suc k)
  then obtain j where j: "k' = Suc j" by (cases k') auto
  with Suc.prems Suc.IH[of "i + 3" j] show ?case by (simp add: add.assoc)
qed

lemma pctRun_end_unique:
  assumes "pctRun s i k" "pctRun s i k'" "k < k'"
  shows "\<not> (i + 3 * k = length s \<or> (i + 3 * k < length s \<and> isSep (s ! (i + 3 * k))))"
proof -
  from pctRun_longer[OF assms(2,3)] have "pctAt s (i + 3 * k)" .
  then show ?thesis by (auto simp: pctAt_def dest: isSep_not_pct)
qed

lemma mEnd_unique:
  assumes a: "mEnd s i e" and b: "mEnd s i e'"
  shows "e = e'"
proof -
  have sep_run: False if "isSep (s ! i)" "pctRun s i k" "1 \<le> k" for k
  proof -
    from that obtain j where "k = Suc j" by (cases k) auto
    with that(2) have "s ! i = CHR ''%''" by (simp add: pctAt_def)
    with isSep_not_pct[OF that(1)] show False by simp
  qed
  have run_run: "k = k'"
    if "pctRun s i k" "pctRun s i k'"
      "i + 3 * k = length s \<or> (i + 3 * k < length s \<and> isSep (s ! (i + 3 * k)))"
      "i + 3 * k' = length s \<or> (i + 3 * k' < length s \<and> isSep (s ! (i + 3 * k')))" for k k'
  proof -
    from pctRun_end_unique[OF that(1,2)] that(3) have "\<not> k < k'" by blast
    moreover from pctRun_end_unique[OF that(2,1)] that(4) have "\<not> k' < k" by blast
    ultimately show ?thesis by simp
  qed
  from a show ?thesis
  proof (cases rule: mEnd_cases)
    case sep
    from b show ?thesis
    proof (cases rule: mEnd_cases)
      case sep
      with \<open>e = i + 1\<close> show ?thesis by simp
    next
      case (run k)
      from sep_run[OF \<open>isSep (s ! i)\<close> run(2,1)] show ?thesis ..
    qed
  next
    case (run k)
    note rk = run
    from b show ?thesis
    proof (cases rule: mEnd_cases)
      case sep
      from sep_run[OF sep(2) rk(2,1)] show ?thesis ..
    next
      case (run k')
      from run_run[OF rk(2) run(2) rk(4)[unfolded rk(3)] run(4)[unfolded run(3)]]
      show ?thesis using rk(3) run(3) by simp
    qed
  qed
qed

lemma pctRun_inside:
  "pctRun s a k \<Longrightarrow> a \<le> i \<Longrightarrow> i < a + 3 * k \<Longrightarrow>
     (if (i - a) mod 3 = 0 then pctRun s i (k - (i - a) div 3) \<and> (i - a) div 3 < k
      else isHex (s ! i))"
proof (induction k arbitrary: a)
  case 0
  then show ?case by simp
next
  case (Suc k)
  from Suc.prems have at: "pctAt s a" and rest: "pctRun s (a + 3) k" by simp_all
  consider "i = a" | "i = a + 1" | "i = a + 2" | "a + 3 \<le> i" using Suc.prems(2) by linarith
  then show ?case
  proof cases
    case 1
    with Suc.prems show ?thesis by simp
  next
    case 2
    with at show ?thesis by (simp add: pctAt_def)
  next
    case 3
    with at show ?thesis by (simp add: pctAt_def)
  next
    case 4
    then obtain d where d: "i = a + 3 + d" by (metis le_Suc_ex)
    with Suc.prems(3) have "i < a + 3 + 3 * k" by simp
    from Suc.IH[OF rest 4 this] d show ?thesis
      by (auto simp: Suc_diff_le split: if_splits)
  qed
qed

lemma mEnd_inside_run:
  assumes run: "pctRun s idx k" and e: "e = idx + 3 * k"
    and la: "e = length s \<or> (e < length s \<and> isSep (s ! e))"
    and i: "idx \<le> i" "i < e" and m: "mEnd s i e'"
  shows "e' = e"
proof -
  from pctRun_inside[OF run i(1) i(2)[unfolded e]]
  have ins: "if (i - idx) mod 3 = 0 then pctRun s i (k - (i - idx) div 3) \<and> (i - idx) div 3 < k
      else isHex (s ! i)" .
  show ?thesis
  proof (cases "(i - idx) mod 3 = 0")
    case False
    with ins have hex: "isHex (s ! i)" by simp
    from m have "isSep (s ! i) \<or> (\<exists>k'. 1 \<le> k' \<and> pctRun s i k')"
      unfolding mEnd_def by blast
    then have "isSep (s ! i) \<or> pctAt s i"
    proof (elim disjE exE conjE)
      fix k' assume "1 \<le> k'" "pctRun s i k'"
      then show ?thesis by (cases k') auto
    qed simp
    with hex show ?thesis by (auto simp: pctAt_def dest: isHex_not_sep isHex_not_pct)
  next
    case True
    with ins have r: "pctRun s i (k - (i - idx) div 3)" "(i - idx) div 3 < k" by simp_all
    from True i(1) have "i = idx + 3 * ((i - idx) div 3)" by presburger
    with r(2) e have "e = i + 3 * (k - (i - idx) div 3)" by (simp add: algebra_simps) 
    with r la have "mEnd s i e" unfolding mEnd_def by (intro disjI2 exI[of _ "k - (i - idx) div 3"]) simp
    from mEnd_unique[OF m this] show ?thesis .
  qed
qed

lemma finite_matchEnds: "finite (matchEnds s li)"
proof (rule finite_subset)
  show "matchEnds s li \<subseteq> {..length s}" using mEnd_bounds by (auto simp: matchEnds_def)
qed simp

lemma matchEnds_gt: "e \<in> matchEnds s li \<Longrightarrow> li < e \<and> e \<le> length s"
  using mEnd_bounds by (fastforce simp: matchEnds_def)

lemma scanBreaks_max:
  "scanBreaks seg li best = (if matchEnds seg li = {} then best else int (Max (matchEnds seg li)))"
proof (induction seg li best rule: scanBreaks.induct)
  case (1 seg li best)
  show ?case
  proof (cases "execFrom breakRe seg li")
    case None
    have "\<not> mEnd seg i e" if "li \<le> i" for i e
    proof
      assume m: "mEnd seg i e"
      with mEnd_bounds have "i \<le> length seg" by fastforce
      from execFrom_None[OF None that this] breakRe_match[of seg i "[]"] m show False by simp
    qed
    then have "matchEnds seg li = {}" by (auto simp: matchEnds_def)
    with None show ?thesis by (subst scanBreaks.simps) simp
  next
    case (Some x)
    obtain idx e caps where x: "x = (idx, (e, caps))" by (metis prod.exhaust)
    from execFrom_Some[OF Some[unfolded x]]
    have f: "li \<le> idx" "idx \<le> length seg" "rmatch breakRe seg (idx, []) \<noteq> []"
      "(e, caps) = hd (rmatch breakRe seg (idx, []))"
      "\<And>j. li \<le> j \<Longrightarrow> j < idx \<Longrightarrow> rmatch breakRe seg (j, []) = []" by simp_all
    from f(3,4) have "(e, caps) \<in> set (rmatch breakRe seg (idx, []))" by simp
    then have me: "mEnd seg idx e" unfolding breakRe_match by simp
    from mEnd_bounds[OF me] have b: "idx < e" "e \<le> length seg" by simp_all
    then have len: "idx + length (sliceJS seg idx e) = e" by (simp add: sliceJS_def)
    have step: "scanBreaks seg li best = scanBreaks seg e (int e)"
      by (subst scanBreaks.simps) (simp only: Some x option.case prod.case len)
    have ih: "scanBreaks seg e (int e)
        = (if matchEnds seg e = {} then int e else int (Max (matchEnds seg e)))"
      using "1.IH"[OF Some x[symmetric] refl, unfolded len] .
    have eq: "matchEnds seg li = insert e (matchEnds seg e)"
    proof (intro set_eqI iffI)
      fix e' assume "e' \<in> matchEnds seg li"
      then obtain i where i: "li \<le> i" "mEnd seg i e'" by (auto simp: matchEnds_def)
      consider "i < idx" | "i = idx" | "idx < i" "i < e" | "e \<le> i" by linarith
      then show "e' \<in> insert e (matchEnds seg e)"
      proof cases
        case 1
        from f(5)[OF i(1) 1] breakRe_match[of seg i "[]"] i(2) show ?thesis by simp
      next
        case 2
        with mEnd_unique[OF me] i(2) show ?thesis by simp
      next
        case 3
        from me have "e = idx + 1 \<or> (\<exists>k. 1 \<le> k \<and> pctRun seg idx k \<and> e = idx + 3 * k
            \<and> (e = length seg \<or> (e < length seg \<and> isSep (seg ! e))))"
          by (auto simp: mEnd_def)
        with 3 obtain k where k: "pctRun seg idx k" "e = idx + 3 * k"
          "e = length seg \<or> (e < length seg \<and> isSep (seg ! e))" by auto
        from mEnd_inside_run[OF k _ 3(2) i(2)] 3(1) show ?thesis by simp
      next
        case 4
        with i(2) show ?thesis by (auto simp: matchEnds_def)
      qed
    next
      fix e' assume "e' \<in> insert e (matchEnds seg e)"
      then consider "e' = e" | "e' \<in> matchEnds seg e" by blast
      then show "e' \<in> matchEnds seg li"
      proof cases
        case 1
        with me f(1) show ?thesis by (auto simp: matchEnds_def)
      next
        case 2
        then obtain i where "e \<le> i" "mEnd seg i e'" by (auto simp: matchEnds_def)
        with b(1) f(1) show ?thesis by (auto simp: matchEnds_def intro!: exI[of _ i])
      qed
    qed
    show ?thesis
    proof (cases "matchEnds seg e = {}")
      case True
      with eq ih step show ?thesis by simp
    next
      case False
      have "e < Max (matchEnds seg e)"
        using matchEnds_gt[of "Max (matchEnds seg e)" seg e] Max_in[OF finite_matchEnds False]
        by simp
      then have "Max (insert e (matchEnds seg e)) = Max (matchEnds seg e)"
        using finite_matchEnds[of seg e] False by (simp add: max_def)
      with eq ih step False show ?thesis by simp
    qed
  qed
qed


lemma pctRun_extend_left:
  "pctRun s a k \<Longrightarrow> 1 \<le> k \<Longrightarrow>
     \<exists>a' k'. a' \<le> a \<and> 1 \<le> k' \<and> a' + 3 * k' = a + 3 * k \<and> pctRun s a' k'
        \<and> \<not> (3 \<le> a' \<and> pctAt s (a' - 3))"
proof (induction a arbitrary: k rule: less_induct)
  case (less a)
  show ?case
  proof (cases "3 \<le> a \<and> pctAt s (a - 3)")
    case False
    with less.prems show ?thesis by blast
  next
    case True
    then have run: "pctRun s (a - 3) (Suc k)" using less.prems(1) by simp
    from True have lt: "a - 3 < a" by simp
    from less.IH[OF lt run] obtain a' k' where
      "a' \<le> a - 3" "1 \<le> k'" "a' + 3 * k' = a - 3 + 3 * Suc k" "pctRun s a' k'"
      "\<not> (3 \<le> a' \<and> pctAt s (a' - 3))" by auto
    with True have "a' \<le> a \<and> 1 \<le> k' \<and> a' + 3 * k' = a + 3 * k \<and> pctRun s a' k'
        \<and> \<not> (3 \<le> a' \<and> pctAt s (a' - 3))" by simp
    then show ?thesis by blast
  qed
qed

lemma specOcc_alt:
  "specOcc seg a b =
     (a < b \<and> b \<le> length seg \<and>
      ((b = a + 1 \<and> isSep (seg ! a)) \<or>
       (\<exists>k \<in> {1..length seg}.
          b = a + 3 * k \<and> pctRun seg a k
          \<and> \<not> (3 \<le> a \<and> pctAt seg (a - 3)) \<and> \<not> pctAt seg b
          \<and> (b = length seg \<or> isSep (seg ! b)))))"
  unfolding specOcc_def list_ex_iff set_upt atLeastLessThanSuc_atLeastAtMost ..

lemma specBreak_alt:
  "specBreak seg =
     (case filter (\<lambda>b. \<exists>a \<in> {0..<b}. specOcc seg a b) (rev [1..<Suc (length seg)]) of
        [] \<Rightarrow> None
      | b # _ \<Rightarrow> Some b)"
  unfolding specBreak_def list_ex_iff set_upt ..

lemma specOcc_iff_mEnd: "(\<exists>a \<in> {0..<b}. specOcc seg a b) \<longleftrightarrow> (\<exists>i. mEnd seg i b)"
proof
  assume "\<exists>a \<in> {0..<b}. specOcc seg a b"
  then obtain a where oc: "specOcc seg a b" by blast
  then have a: "a < b" "b \<le> length seg"
    "(b = a + 1 \<and> isSep (seg ! a)) \<or>
     (\<exists>k \<in> {1..length seg}. b = a + 3 * k \<and> pctRun seg a k
        \<and> (b = length seg \<or> isSep (seg ! b)))"
    unfolding specOcc_alt by blast+
  from a(3) have "mEnd seg a b"
  proof
    assume "b = a + 1 \<and> isSep (seg ! a)"
    with a(2) show ?thesis by (simp add: mEnd_def)
  next
    assume "\<exists>k \<in> {1..length seg}. b = a + 3 * k \<and> pctRun seg a k
        \<and> (b = length seg \<or> isSep (seg ! b))"
    then obtain k where k: "k \<in> {1..length seg}" "b = a + 3 * k" "pctRun seg a k"
      "b = length seg \<or> isSep (seg ! b)" by blast
    then have "1 \<le> k" by simp
    with k a(2) have "1 \<le> k \<and> pctRun seg a k \<and> b = a + 3 * k
        \<and> (b = length seg \<or> (b < length seg \<and> isSep (seg ! b)))" by auto
    then show ?thesis unfolding mEnd_def by blast
  qed
  then show "\<exists>i. mEnd seg i b" ..
next
  assume "\<exists>i. mEnd seg i b"
  then obtain i where m: "mEnd seg i b" ..
  from mEnd_bounds[OF m] have bd: "i < b" "b \<le> length seg" by simp_all
  from m show "\<exists>a \<in> {0..<b}. specOcc seg a b"
  proof (cases rule: mEnd_cases)
    case sep
    with bd have "specOcc seg i b" by (simp add: specOcc_alt)
    with bd show ?thesis by auto
  next
    case (run k)
    from pctRun_extend_left[OF run(2,1)] obtain a' k' where
      e: "a' \<le> i" "1 \<le> k'" "a' + 3 * k' = i + 3 * k" "pctRun seg a' k'"
         "\<not> (3 \<le> a' \<and> pctAt seg (a' - 3))" by blast
    from pctRun_bound[OF e(4,2)] have "k' \<le> length seg" by simp
    with e(2) have kin: "k' \<in> {1..length seg}" by simp
    have nb: "\<not> pctAt seg b" using run(4) by (auto simp: pctAt_def dest: isSep_not_pct)
    have "b = a' + 3 * k' \<and> pctRun seg a' k' \<and> \<not> (3 \<le> a' \<and> pctAt seg (a' - 3))
        \<and> \<not> pctAt seg b \<and> (b = length seg \<or> isSep (seg ! b))"
      using e run(3,4) nb by auto
    with kin have "\<exists>k \<in> {1..length seg}. b = a' + 3 * k \<and> pctRun seg a' k
        \<and> \<not> (3 \<le> a' \<and> pctAt seg (a' - 3)) \<and> \<not> pctAt seg b
        \<and> (b = length seg \<or> isSep (seg ! b))" by blast
    moreover have "a' < b" using e(1) bd(1) by simp
    ultimately have "specOcc seg a' b" using bd(2) unfolding specOcc_alt by blast
    with \<open>a' < b\<close> show ?thesis by auto
  qed
qed

lemma last_in_range:
  "(case filter P (rev [m..<n]) of [] \<Rightarrow> None | b # _ \<Rightarrow> Some b) =
     (if {b. m \<le> b \<and> b < n \<and> P b} = {} then None else Some (Max {b. m \<le> b \<and> b < n \<and> P b}))"
proof (induction n)
  case 0
  then show ?case by simp
next
  case (Suc n)
  show ?case
  proof (cases "m \<le> n")
    case False
    then have "{b. m \<le> b \<and> b < Suc n \<and> P b} = {}" by auto
    with False show ?thesis by simp
  next
    case True
    show ?thesis
    proof (cases "P n")
      case P: True
      have fin: "finite {b. m \<le> b \<and> b < Suc n \<and> P b}" by simp
      have "Max {b. m \<le> b \<and> b < Suc n \<and> P b} = n"
        using True P by (intro Max_eqI[OF fin]) auto
      moreover have "{b. m \<le> b \<and> b < Suc n \<and> P b} \<noteq> {}" using True P by auto
      ultimately show ?thesis using True P by simp
    next
      case nP: False
      have "{b. m \<le> b \<and> b < Suc n \<and> P b} = {b. m \<le> b \<and> b < n \<and> P b}"
        using nP less_Suc_eq by auto
      with Suc.IH True nP show ?thesis by simp
    qed
  qed
qed

lemma specBreak_max:
  "specBreak seg = (if matchEnds seg 0 = {} then None else Some (Max (matchEnds seg 0)))"
proof -
  have "matchEnds seg 0
      = {b. 1 \<le> b \<and> b < Suc (length seg) \<and> (\<exists>a \<in> {0..<b}. specOcc seg a b)}"
    unfolding specOcc_iff_mEnd matchEnds_def using mEnd_bounds[of seg] by fastforce
  then show ?thesis unfolding specBreak_alt last_in_range by simp
qed

text \<open>
  C7. In URL mode, whenever the maximal-fit candidate is not empty (in particular when it
  is longer than one character), the line pushed ends immediately after the last
  occurrence in the candidate of the URL-boundary pattern, as the specification words it;
  when the candidate has no occurrence, the whole candidate is pushed.
\<close>

theorem wrapStep_url_break:
  assumes "lineEnd = growEnd measureFn maxWidth text start (start + 1) - 1"
    and "candidate = sliceJS text start lineEnd"
    and "candidate \<noteq> []"
  shows "wrapStep measureFn maxWidth True text start =
     (case specBreak candidate of
        None \<Rightarrow> (candidate, lineEnd)
      | Some b \<Rightarrow> (take b candidate, start + b))"
proof -
  define b where "b = scanBreaks candidate 0 (- 1)"
  have ws: "wrapStep measureFn maxWidth True text start =
      (if lineEnd \<le> start then ([text ! start], start + 1)
       else (if 0 < b then (sliceJS text start (start + nat b), start + nat b)
             else (candidate, lineEnd)))"
    unfolding wrapStep_def Let_def assms(1,2) b_def by simp
  from assms(2,3) have gt: "\<not> lineEnd \<le> start" by (auto simp: sliceJS_def)
  have bmax: "b = (if matchEnds candidate 0 = {} then - 1 else int (Max (matchEnds candidate 0)))"
    unfolding b_def scanBreaks_max ..
  show ?thesis
  proof (cases "matchEnds candidate 0 = {}")
    case True
    with bmax gt show ?thesis by (simp add: ws specBreak_max)
  next
    case False
    define e where "e = Max (matchEnds candidate 0)"
    from Max_in[OF finite_matchEnds False] matchEnds_gt[of e candidate 0]
    have e: "0 < e" "e \<le> length candidate" by (auto simp: e_def)
    then have "e \<le> lineEnd - start" by (simp add: assms(2) sliceJS_def)
    then have "sliceJS text start (start + e) = take e candidate"
      by (simp add: assms(2) sliceJS_def min_absorb1)
    with False bmax gt e show ?thesis by (simp add: ws specBreak_max e_def[symmetric])
  qed
qed

theorem wrapStep_url_break_witness:
  "sliceJS ''ab/cdef'' 0 6 \<noteq> [] \<and>
   wrapStep length (6::nat) True ''ab/cdef'' 0 = (''ab/'', 3) \<and>
   sliceJS ''ab/cdef'' 3 7 \<noteq> [] \<and>
   wrapStep length (6::nat) True ''ab/cdef'' 3 = (''cdef'', 7)"
proof -
  have g0: "(6::nat) = growEnd length (6::nat) ''ab/cdef'' 0 (0 + 1) - 1"
    by (simp add: growEnd.simps sliceJS_def)
  have g3: "(7::nat) = growEnd length (6::nat) ''ab/cdef'' 3 (3 + 1) - 1"
    by (simp add: growEnd.simps sliceJS_def)
  have c0: "''ab/cde'' = sliceJS ''ab/cdef'' 0 6" by (simp add: sliceJS_def)
  have c3: "''cdef'' = sliceJS ''ab/cdef'' 3 7" by (simp add: sliceJS_def)
  have s0: "specBreak ''ab/cde'' = Some 3" by code_simp
  have s3: "specBreak ''cdef'' = None" by code_simp
  have n0: "''ab/cde'' \<noteq> []" and n3: "''cdef'' \<noteq> []" by simp_all
  from wrapStep_url_break[OF g0 c0 n0] s0
  have "wrapStep length (6::nat) True ''ab/cdef'' 0 = (''ab/'', 3)" by simp
  moreover from wrapStep_url_break[OF g3 c3 n3] s3
  have "wrapStep length (6::nat) True ''ab/cdef'' 3 = (''cdef'', 7)" by simp
  ultimately show ?thesis using c0[symmetric] c3[symmetric] by simp
qed

section \<open>Page layout: \<open>computeLayout\<close> (src/utils/pdf.ts)\<close>

text \<open>
  JavaScript numbers are modelled as real numbers. The sums of \<open>computeLayout\<close> are kept in
  the order and association of the source.
\<close>

record Spacing =
  s_top :: real
  s_right :: real
  s_bottom :: real
  s_left :: real

record ElementRect =
  r_left :: real
  r_top :: real
  r_right :: real
  r_bottom :: real
  r_width :: real
  r_height :: real
  fullHeight :: real
  fullWidth :: real
  backgroundColor :: string

record Layout =
  pageWidth :: real
  pageHeight :: real
  margin :: Spacing
  padding :: Spacing
  bottomMargin :: real
  contentWidth :: real
  contentHeight :: real
  paddedWidth :: real
  paddedHeight :: real
  textX :: real
  textPadX :: real
  labelFontSize :: real
  urlFontSize :: real
  topBannerFontSize :: real
  labelRowH :: real
  urlRowH :: real
  labelToUrlGap :: real
  textBlockPad :: real
  urlLines :: "string list"

definition PX_TO_PT :: real where
  "PX_TO_PT = 72 / 96"

text \<open>
  \<open>fontMono.widthOfTextAtSize\<close> belongs to the PDF library; it is the parameter
  \<open>widthOfTextAtSize\<close>. The result is \<open>None\<close> only if \<open>wrapText\<close> does not return.
\<close>

definition computeLayout ::
  "ElementRect \<Rightarrow> string \<Rightarrow> (string \<Rightarrow> real \<Rightarrow> real) \<Rightarrow> Spacing option \<Rightarrow> Spacing option
     \<Rightarrow> Layout option" where
  "computeLayout rect url widthOfTextAtSize marginOpt paddingOpt =
     (let contentWidth = r_width rect * PX_TO_PT;
          contentHeight = r_height rect * PX_TO_PT;
          padding = (case paddingOpt of
                       Some p \<Rightarrow> p
                     | None \<Rightarrow> \<lparr>s_top = 20, s_right = 20, s_bottom = 20, s_left = 20\<rparr>);
          margin = (case marginOpt of
                      Some m \<Rightarrow> m
                    | None \<Rightarrow> \<lparr>s_top = 16, s_right = 16, s_bottom = 16, s_left = 16\<rparr>);
          labelFontSize = 9;
          urlFontSize = 12;
          lineGap = 2;
          labelRowH = labelFontSize + lineGap;
          urlRowH = urlFontSize + lineGap;
          textBlockPad = 5;
          labelToUrlGap = 4;
          topBannerFontSize = 9;
          textPadX = 10;
          paddedWidth = contentWidth + s_left padding + s_right padding;
          textX = s_left margin + textPadX;
          availableTextWidth = paddedWidth - textPadX * 2
      in case wrapText url availableTextWidth (\<lambda>s. widthOfTextAtSize s urlFontSize) True of
           None \<Rightarrow> None
         | Some wrapped \<Rightarrow>
             (let urlLines = wrapped;
                  bottomTextHeight =
                    textBlockPad + labelRowH + labelToUrlGap + real (length urlLines) * urlRowH;
                  bottomMargin = max (s_bottom margin) bottomTextHeight;
                  paddedHeight = contentHeight + s_top padding + s_bottom padding;
                  pageWidth = paddedWidth + s_left margin + s_right margin;
                  pageHeight = paddedHeight + s_top margin + bottomMargin
              in Some \<lparr>pageWidth = pageWidth, pageHeight = pageHeight, margin = margin,
                        padding = padding, bottomMargin = bottomMargin,
                        contentWidth = contentWidth, contentHeight = contentHeight,
                        paddedWidth = paddedWidth, paddedHeight = paddedHeight, textX = textX,
                        textPadX = textPadX, labelFontSize = labelFontSize,
                        urlFontSize = urlFontSize, topBannerFontSize = topBannerFontSize,
                        labelRowH = labelRowH, urlRowH = urlRowH,
                        labelToUrlGap = labelToUrlGap, textBlockPad = textBlockPad,
                        urlLines = urlLines\<rparr>))"

text \<open>
  C2. \<open>computeLayout\<close> returns a layout, and in it the bottom margin is at least the
  requested one, the page width and height are the padded size plus the margins, and the
  bottom margin is the maximum of the requested bottom margin and the footer block height
  \<open>5 + (9 + 2) + 4 + urlLineCount * (12 + 2)\<close>. The margin of the layout is the one
  passed in, or 16 on every side; its padding is the one passed in, or 20 on every side; the
  padded size is the size of the element in points plus the padding; and the URL lines
  counted are the URL wrapped in URL mode to the padded width less 10 on each side, measured
  at size 12.
\<close>

theorem computeLayout_invariants:
  "\<exists>L. computeLayout rect url widthOfTextAtSize marginOpt paddingOpt = Some L
     \<and> s_bottom (margin L) \<le> bottomMargin L
     \<and> pageWidth L = paddedWidth L + s_left (margin L) + s_right (margin L)
     \<and> pageHeight L = paddedHeight L + s_top (margin L) + bottomMargin L
     \<and> bottomMargin L
          = max (s_bottom (margin L)) (5 + (9 + 2) + 4 + real (length (urlLines L)) * (12 + 2))
     \<and> margin L = (case marginOpt of
                      Some m \<Rightarrow> m
                    | None \<Rightarrow> \<lparr>s_top = 16, s_right = 16, s_bottom = 16, s_left = 16\<rparr>)
     \<and> padding L = (case paddingOpt of
                       Some p \<Rightarrow> p
                     | None \<Rightarrow> \<lparr>s_top = 20, s_right = 20, s_bottom = 20, s_left = 20\<rparr>)
     \<and> paddedWidth L = r_width rect * PX_TO_PT + s_left (padding L) + s_right (padding L)
     \<and> paddedHeight L = r_height rect * PX_TO_PT + s_top (padding L) + s_bottom (padding L)
     \<and> wrapText url (paddedWidth L - 10 * 2) (\<lambda>s. widthOfTextAtSize s 12) True
           = Some (urlLines L)"
proof -
  define w where "w = r_width rect * PX_TO_PT
      + s_left (case paddingOpt of Some p \<Rightarrow> p
                | None \<Rightarrow> \<lparr>s_top = 20, s_right = 20, s_bottom = 20, s_left = 20\<rparr>)
      + s_right (case paddingOpt of Some p \<Rightarrow> p
                | None \<Rightarrow> \<lparr>s_top = 20, s_right = 20, s_bottom = 20, s_left = 20\<rparr>) - 10 * 2"
  from wrapLoop_result[of url "\<lambda>_. True" "\<lambda>s. widthOfTextAtSize s 12" w True 0 "[]"]
  obtain ls where ls: "wrapText url w (\<lambda>s. widthOfTextAtSize s 12) True = Some ls"
    by (auto simp: wrapText_def)
  have w: "r_width rect * PX_TO_PT
      + s_left (case paddingOpt of Some p \<Rightarrow> p
                | None \<Rightarrow> \<lparr>s_top = 20, s_right = 20, s_bottom = 20, s_left = 20\<rparr>)
      + s_right (case paddingOpt of Some p \<Rightarrow> p
                | None \<Rightarrow> \<lparr>s_top = 20, s_right = 20, s_bottom = 20, s_left = 20\<rparr>) - 20 = w"
    by (simp add: w_def)
  show ?thesis
    unfolding computeLayout_def Let_def w_def[symmetric] ls by (simp add: w ls)
qed

section \<open>The capture loop of \<open>main\<close> (src/app/api/stagehand/main.ts)\<close>

text \<open>
  The request body, as \<open>src/utils/pdfSchema.ts\<close> declares it; an optional field is an
  \<open>option\<close>.
\<close>

record Selectors =
  main_sel :: "string option"
  wait_sel :: "string list option"
  remove_sel :: "string list option"

record Document =
  d_margin :: "Spacing option"
  d_padding :: "Spacing option"

record PdfItem =
  url :: string
  selectors :: "Selectors option"
  document :: "Document option"

record PdfBody =
  name :: "string option"
  b_selectors :: "Selectors option"
  b_document :: "Document option"
  items :: "PdfItem list"

record CaptureOptions =
  selector :: "string option"
  wait :: "string list"
  remove :: "string list"
  o_margin :: "Spacing option"
  o_padding :: "Spacing option"

text \<open>
  What a \<open>catch\<close> clause can receive: a \<open>SelectorNotFoundError\<close> (built from the selector
  and the URL), any other \<open>Error\<close> with its message, or a value that is not an \<open>Error\<close>,
  given by its string conversion.
\<close>

datatype thrown =
    SelectorNotFoundError string string
  | Error string
  | NonError string

fun isSelectorNotFound :: "thrown \<Rightarrow> bool" where
  "isSelectorNotFound (SelectorNotFoundError sel u) = True"
| "isSelectorNotFound (Error m) = False"
| "isSelectorNotFound (NonError v) = False"

text \<open>\<open>lastError instanceof Error ? lastError.message : String(lastError)\<close>\<close>

fun errorText :: "thrown option \<Rightarrow> string" where
  "errorText None = ''undefined''"
| "errorText (Some (SelectorNotFoundError sel u)) = ''Selector \"'' @ sel @ ''\" not found on '' @ u"
| "errorText (Some (Error m)) = m"
| "errorText (Some (NonError v)) = v"

definition MAX_ATTEMPTS :: nat where
  "MAX_ATTEMPTS = 3"

text \<open>The decimal digits of a number, as a template literal prints it.\<close>

fun showNat :: "nat \<Rightarrow> string" where
  "showNat n = (if n < 10 then [''0123456789'' ! n]
                else showNat (n div 10) @ [''0123456789'' ! (n mod 10)])"

declare showNat.simps [simp del]

definition orElse :: "'a option \<Rightarrow> 'a option \<Rightarrow> 'a option" where
  "orElse x y = (case x of Some v \<Rightarrow> Some v | None \<Rightarrow> y)"

definition resolveOptions :: "PdfBody \<Rightarrow> PdfItem \<Rightarrow> CaptureOptions" where
  "resolveOptions body item =
     \<lparr>selector = orElse (Option.bind (selectors item) main_sel)
                         (Option.bind (b_selectors body) main_sel),
      wait = (case orElse (Option.bind (selectors item) wait_sel)
                          (Option.bind (b_selectors body) wait_sel) of
                Some w \<Rightarrow> w | None \<Rightarrow> []),
      remove = (case orElse (Option.bind (selectors item) remove_sel)
                            (Option.bind (b_selectors body) remove_sel) of
                  Some w \<Rightarrow> w | None \<Rightarrow> []),
      o_margin = orElse (Option.bind (document item) d_margin)
                        (Option.bind (b_document body) d_margin),
      o_padding = orElse (Option.bind (document item) d_padding)
                         (Option.bind (b_document body) d_padding)\<rparr>"

text \<open>
  \<open>capturePageInput\<close> drives the external browser. The browser is modelled by the script
  of its answers: \<open>capture n u opts\<close> is the outcome of the call made after \<open>n\<close> earlier
  calls, either the thrown value or the page input. The number of calls made so far is the
  state that the loops pass on, so the second component of every result below counts the
  capture attempts.

  The retry loop \<open>for (let attempt = 1; attempt <= MAX_ATTEMPTS; attempt++)\<close>: \<open>Inl\<close> is the
  rethrown \<open>SelectorNotFoundError\<close>; \<open>Inr\<close> carries \<open>captured\<close> (the page input, if any) and
  \<open>lastError\<close>.
\<close>

function attemptLoop ::
  "(nat \<Rightarrow> string \<Rightarrow> CaptureOptions \<Rightarrow> thrown + 'p) \<Rightarrow> string \<Rightarrow> CaptureOptions \<Rightarrow> nat
     \<Rightarrow> thrown option \<Rightarrow> nat \<Rightarrow> (thrown + ('p option \<times> thrown option)) \<times> nat" where
  "attemptLoop capture u opts attempt lastError n =
     (if attempt \<le> MAX_ATTEMPTS then
        (case capture n u opts of
           Inr pageInput \<Rightarrow> (Inr (Some pageInput, lastError), n + 1)
         | Inl err \<Rightarrow>
             if isSelectorNotFound err then (Inl err, n + 1)
             else attemptLoop capture u opts (attempt + 1) (Some err) (n + 1))
      else (Inr (None, lastError), n))"
  by pat_completeness auto
termination
  by (relation "measure (\<lambda>(capture, u, opts, attempt, lastError, n). Suc MAX_ATTEMPTS - attempt)")
    auto

declare attemptLoop.simps [simp del]

text \<open>The body of the loop over the items, after the options are resolved.\<close>

definition captureItem ::
  "(nat \<Rightarrow> string \<Rightarrow> CaptureOptions \<Rightarrow> thrown + 'p) \<Rightarrow> string \<Rightarrow> CaptureOptions \<Rightarrow> nat
     \<Rightarrow> (thrown + 'p) \<times> nat" where
  "captureItem capture u opts n =
     (case attemptLoop capture u opts 1 None n of
        (Inl err, n') \<Rightarrow> (Inl err, n')
      | (Inr (Some pageInput, lastError), n') \<Rightarrow> (Inr pageInput, n')
      | (Inr (None, lastError), n') \<Rightarrow>
          (Inl (Error (''Failed to capture '' @ u @ '' after '' @ showNat MAX_ATTEMPTS
                        @ '' attempts: '' @ errorText lastError)), n'))"

fun itemsLoop ::
  "(nat \<Rightarrow> string \<Rightarrow> CaptureOptions \<Rightarrow> thrown + 'p) \<Rightarrow> PdfBody \<Rightarrow> PdfItem list \<Rightarrow> 'p list \<Rightarrow> nat
     \<Rightarrow> (thrown + 'p list) \<times> nat" where
  "itemsLoop capture body [] pageInputs n = (Inr pageInputs, n)"
| "itemsLoop capture body (item # rest) pageInputs n =
     (case captureItem capture (url item) (resolveOptions body item) n of
        (Inl err, n') \<Rightarrow> (Inl err, n')
      | (Inr pageInput, n') \<Rightarrow> itemsLoop capture body rest (pageInputs @ [pageInput]) n')"

text \<open>
  \<open>main\<close> once the browser is connected: the capture loop, then the PDF is built and
  stored by external collaborators (the parameter \<open>publish\<close>), which gives the URL
  returned. Closing the browser in the \<open>finally\<close> block changes no result.
\<close>

definition main ::
  "(nat \<Rightarrow> string \<Rightarrow> CaptureOptions \<Rightarrow> thrown + 'p) \<Rightarrow> ('p list \<Rightarrow> thrown + string) \<Rightarrow> PdfBody
     \<Rightarrow> (thrown + string) \<times> nat" where
  "main capture publish body =
     (case itemsLoop capture body (items body) [] 0 of
        (Inl err, n) \<Rightarrow> (Inl err, n)
      | (Inr pageInputs, n) \<Rightarrow> (publish pageInputs, n))"

lemma showNat_MAX_ATTEMPTS: "showNat MAX_ATTEMPTS = ''3''"
  by (simp add: MAX_ATTEMPTS_def showNat.simps)

lemma attemptLoop_past: "MAX_ATTEMPTS < attempt \<Longrightarrow>
    attemptLoop capture u opts attempt le n = (Inr (None, le), n)"
  by (subst attemptLoop.simps) simp

lemma attemptLoop_try: "attempt \<le> MAX_ATTEMPTS \<Longrightarrow>
    attemptLoop capture u opts attempt le n =
      (case capture n u opts of
         Inr pageInput \<Rightarrow> (Inr (Some pageInput, le), n + 1)
       | Inl err \<Rightarrow>
           if isSelectorNotFound err then (Inl err, n + 1)
           else attemptLoop capture u opts (attempt + 1) (Some err) (n + 1))"
  by (subst attemptLoop.simps) simp

text \<open>
  What the retry loop does from attempt number \<open>attempt\<close> on, when \<open>n\<close> calls were made
  before: it makes \<open>snd result - n\<close> calls, at most one per remaining attempt; every call but
  the last threw something other than a \<open>SelectorNotFoundError\<close>; and the last call decides
  the result.
\<close>

lemma attemptLoop_spec:
  assumes "attempt \<le> MAX_ATTEMPTS"
  shows "n < snd (attemptLoop capture u opts attempt le n)
     \<and> snd (attemptLoop capture u opts attempt le n) \<le> n + (Suc MAX_ATTEMPTS - attempt)
     \<and> (\<forall>k. n \<le> k \<and> Suc k < snd (attemptLoop capture u opts attempt le n) \<longrightarrow>
           (\<exists>e. capture k u opts = Inl e \<and> \<not> isSelectorNotFound e))
     \<and> (case capture (snd (attemptLoop capture u opts attempt le n) - 1) u opts of
           Inr p \<Rightarrow> \<exists>le'. fst (attemptLoop capture u opts attempt le n) = Inr (Some p, le')
         | Inl e \<Rightarrow>
             if isSelectorNotFound e
             then fst (attemptLoop capture u opts attempt le n) = Inl e
             else snd (attemptLoop capture u opts attempt le n) = n + (Suc MAX_ATTEMPTS - attempt)
                \<and> fst (attemptLoop capture u opts attempt le n) = Inr (None, Some e))"
  using assms
proof (induction capture u opts attempt le n rule: attemptLoop.induct)
  case (1 capture u opts attempt le n)
  note unf = attemptLoop_try[OF "1.prems", of capture u opts le n]
  show ?case
  proof (cases "capture n u opts")
    case (Inr p)
    with unf "1.prems" show ?thesis by auto
  next
    case (Inl err)
    show ?thesis
    proof (cases "isSelectorNotFound err")
      case True
      with unf Inl "1.prems" show ?thesis by auto
    next
      case False
      with unf Inl have step: "attemptLoop capture u opts attempt le n
          = attemptLoop capture u opts (attempt + 1) (Some err) (n + 1)" by simp
      show ?thesis
      proof (cases "attempt + 1 \<le> MAX_ATTEMPTS")
        case last: False
        with "1.prems" have "attempt = MAX_ATTEMPTS" by simp
        with attemptLoop_past[of "attempt + 1" capture u opts "Some err" "n + 1"] step Inl False
        show ?thesis by auto
      next
        case more: True
        from "1.IH"[OF "1.prems" Inl False more]
        have ih: "n + 1 < snd (attemptLoop capture u opts attempt le n)"
          "snd (attemptLoop capture u opts attempt le n) \<le> n + 1 + (Suc MAX_ATTEMPTS - (attempt + 1))"
          "\<forall>k. n + 1 \<le> k \<and> Suc k < snd (attemptLoop capture u opts attempt le n) \<longrightarrow>
             (\<exists>e. capture k u opts = Inl e \<and> \<not> isSelectorNotFound e)"
          "(case capture (snd (attemptLoop capture u opts attempt le n) - 1) u opts of
             Inr p \<Rightarrow> \<exists>le'. fst (attemptLoop capture u opts attempt le n) = Inr (Some p, le')
           | Inl e \<Rightarrow>
               if isSelectorNotFound e
               then fst (attemptLoop capture u opts attempt le n) = Inl e
               else snd (attemptLoop capture u opts attempt le n)
                      = n + 1 + (Suc MAX_ATTEMPTS - (attempt + 1))
                  \<and> fst (attemptLoop capture u opts attempt le n) = Inr (None, Some e))"
          unfolding step by simp_all
        have arith: "n + 1 + (Suc MAX_ATTEMPTS - (attempt + 1)) = n + (Suc MAX_ATTEMPTS - attempt)"
          using more by simp
        have prev: "\<exists>e. capture k u opts = Inl e \<and> \<not> isSelectorNotFound e"
          if "n \<le> k" "Suc k < snd (attemptLoop capture u opts attempt le n)" for k
        proof (cases "k = n")
          case True
          with Inl False show ?thesis by simp
        next
          case False
          with that ih(3) show ?thesis by simp
        qed
        from ih(1) have "n < snd (attemptLoop capture u opts attempt le n)" by simp
        moreover from ih(2) arith
        have "snd (attemptLoop capture u opts attempt le n) \<le> n + (Suc MAX_ATTEMPTS - attempt)"
          by simp
        moreover note prev
        moreover
        have "(case capture (snd (attemptLoop capture u opts attempt le n) - 1) u opts of
             Inr p \<Rightarrow> \<exists>le'. fst (attemptLoop capture u opts attempt le n) = Inr (Some p, le')
           | Inl e \<Rightarrow>
               if isSelectorNotFound e
               then fst (attemptLoop capture u opts attempt le n) = Inl e
               else snd (attemptLoop capture u opts attempt le n)
                      = n + (Suc MAX_ATTEMPTS - attempt)
                  \<and> fst (attemptLoop capture u opts attempt le n) = Inr (None, Some e))"
          using ih(4) unfolding arith .
        ultimately show ?thesis by blast
      qed
    qed
  qed
qed


lemma captureItem_snd:
  "snd (captureItem capture u opts n) = snd (attemptLoop capture u opts 1 None n)"
  by (simp add: captureItem_def split: prod.splits sum.splits option.splits)

lemma captureItem_fst:
  "fst (captureItem capture u opts n) =
     (case fst (attemptLoop capture u opts 1 None n) of
        Inl err \<Rightarrow> Inl err
      | Inr (Some pageInput, lastError) \<Rightarrow> Inr pageInput
      | Inr (None, lastError) \<Rightarrow>
          Inl (Error (''Failed to capture '' @ u @ '' after 3 attempts: '' @ errorText lastError)))"
  by (simp add: captureItem_def showNat_MAX_ATTEMPTS split: prod.splits sum.splits option.splits)

lemma captureItem_spec:
  "n < snd (captureItem capture u opts n)
   \<and> snd (captureItem capture u opts n) \<le> n + 3
   \<and> (\<forall>k. n \<le> k \<and> Suc k < snd (captureItem capture u opts n) \<longrightarrow>
         (\<exists>e. capture k u opts = Inl e \<and> \<not> isSelectorNotFound e))
   \<and> (case capture (snd (captureItem capture u opts n) - 1) u opts of
         Inr p \<Rightarrow> fst (captureItem capture u opts n) = Inr p
       | Inl e \<Rightarrow>
           if isSelectorNotFound e then fst (captureItem capture u opts n) = Inl e
           else snd (captureItem capture u opts n) = n + 3
              \<and> fst (captureItem capture u opts n)
                  = Inl (Error (''Failed to capture '' @ u @ '' after 3 attempts: ''
                                 @ errorText (Some e))))"
proof -
  have le: "1 \<le> MAX_ATTEMPTS" by (simp add: MAX_ATTEMPTS_def)
  have three: "Suc MAX_ATTEMPTS - 1 = 3" by (simp add: MAX_ATTEMPTS_def)
  note sp = attemptLoop_spec[OF le, of n capture u opts None, unfolded three]
  from sp have a: "n < snd (captureItem capture u opts n)"
    "snd (captureItem capture u opts n) \<le> n + 3"
    "\<forall>k. n \<le> k \<and> Suc k < snd (captureItem capture u opts n) \<longrightarrow>
         (\<exists>e. capture k u opts = Inl e \<and> \<not> isSelectorNotFound e)"
    unfolding captureItem_snd by blast+
  from sp have last: "case capture (snd (attemptLoop capture u opts 1 None n) - 1) u opts of
        Inr p \<Rightarrow> \<exists>le'. fst (attemptLoop capture u opts 1 None n) = Inr (Some p, le')
      | Inl e \<Rightarrow>
          if isSelectorNotFound e then fst (attemptLoop capture u opts 1 None n) = Inl e
          else snd (attemptLoop capture u opts 1 None n) = n + 3
             \<and> fst (attemptLoop capture u opts 1 None n) = Inr (None, Some e)"
    by blast
  have "case capture (snd (captureItem capture u opts n) - 1) u opts of
         Inr p \<Rightarrow> fst (captureItem capture u opts n) = Inr p
       | Inl e \<Rightarrow>
           if isSelectorNotFound e then fst (captureItem capture u opts n) = Inl e
           else snd (captureItem capture u opts n) = n + 3
              \<and> fst (captureItem capture u opts n)
                  = Inl (Error (''Failed to capture '' @ u @ '' after 3 attempts: ''
                                 @ errorText (Some e)))"
  proof (cases "capture (snd (attemptLoop capture u opts 1 None n) - 1) u opts")
    case (Inl e)
    with last show ?thesis
      unfolding captureItem_snd captureItem_fst by (auto split: if_splits)
  next
    case (Inr p)
    with last show ?thesis
      unfolding captureItem_snd captureItem_fst by auto
  qed
  with a show ?thesis by blast
qed

lemma itemsLoop_append:
  "itemsLoop capture body (pre @ rest) acc m =
     (case itemsLoop capture body pre acc m of
        (Inl e, n) \<Rightarrow> (Inl e, n)
      | (Inr acc', m') \<Rightarrow> itemsLoop capture body rest acc' m')"
  by (induction pre arbitrary: acc m) (auto split: prod.splits sum.splits)

text \<open>An item that fails after the items before it succeeded fails the loop, at once.\<close>

lemma itemsLoop_fails:
  assumes "itemsLoop capture body pre acc m = (Inr acc', m')"
    and "captureItem capture (url item) (resolveOptions body item) m' = (Inl e, n')"
  shows "itemsLoop capture body (pre @ item # rest) acc m = (Inl e, n')"
  using assms by (simp add: itemsLoop_append)

lemma itemsLoop_abort:
  "itemsLoop capture body its acc m = (Inl e, n') \<Longrightarrow>
     \<exists>pre item rest acc' m'. its = pre @ item # rest
        \<and> itemsLoop capture body pre acc m = (Inr acc', m')
        \<and> captureItem capture (url item) (resolveOptions body item) m' = (Inl e, n')"
proof (induction its arbitrary: acc m)
  case Nil
  then show ?case by simp
next
  case (Cons item rest)
  obtain res n1 where c: "captureItem capture (url item) (resolveOptions body item) m = (res, n1)"
    by (cases "captureItem capture (url item) (resolveOptions body item) m")
  show ?case
  proof (cases res)
    case (Inl err)
    with c Cons.prems have "err = e" "n1 = n'" by simp_all
    with c Inl have "item # rest = [] @ item # rest
        \<and> itemsLoop capture body [] acc m = (Inr acc, m)
        \<and> captureItem capture (url item) (resolveOptions body item) m = (Inl e, n')" by simp
    then show ?thesis by blast
  next
    case (Inr p)
    with c Cons.prems have "itemsLoop capture body rest (acc @ [p]) n1 = (Inl e, n')" by simp
    from Cons.IH[OF this] obtain pre it rs acc' m' where
      "rest = pre @ it # rs" "itemsLoop capture body pre (acc @ [p]) n1 = (Inr acc', m')"
      "captureItem capture (url it) (resolveOptions body it) m' = (Inl e, n')"
      by blast
    with c Inr have "item # rest = (item # pre) @ it # rs
        \<and> itemsLoop capture body (item # pre) acc m = (Inr acc', m')
        \<and> captureItem capture (url it) (resolveOptions body it) m' = (Inl e, n')" by simp
    then show ?thesis by blast
  qed
qed

text \<open>A loop that does not fail has captured every item, in order, after what it had.\<close>

lemma itemsLoop_all:
  "itemsLoop capture body its acc m = (Inr ps, n') \<Longrightarrow>
     length ps = length acc + length its \<and> take (length acc) ps = acc"
proof (induction its arbitrary: acc m)
  case Nil
  then show ?case by simp
next
  case (Cons item rest)
  obtain res n1 where c: "captureItem capture (url item) (resolveOptions body item) m = (res, n1)"
    by (cases "captureItem capture (url item) (resolveOptions body item) m")
  show ?case
  proof (cases res)
    case (Inl err)
    with c Cons.prems show ?thesis by simp
  next
    case (Inr p)
    with c Cons.prems have "itemsLoop capture body rest (acc @ [p]) n1 = (Inr ps, n')" by simp
    from Cons.IH[OF this] have l: "length ps = length (acc @ [p]) + length rest"
      and t: "take (length (acc @ [p])) ps = acc @ [p]" by simp_all
    from t have "take (length acc) (take (length (acc @ [p])) ps) = take (length acc) (acc @ [p])"
      by simp
    then have "take (length acc) ps = acc" by (simp add: min_def)
    with l show ?thesis by simp
  qed
qed

text \<open>
  C3. For each item, capture is attempted at least once and at most three times; an
  attempt is followed by another only when it threw something other than a
  \<open>SelectorNotFoundError\<close>; the last attempt decides the item: its page input on success,
  the \<open>SelectorNotFoundError\<close> itself when it threw one, and otherwise (only after three
  attempts) an error whose message names the URL, the attempt count 3 and the message of the
  last error. When the loop over the items fails, it fails with the error of one item and
  makes no capture attempt after that item's last one, and \<open>main\<close> fails with that error.
  Conversely, an item that fails after the items before it were captured makes the loop over
  the items, and \<open>main\<close>, fail with the error of that item, with no capture attempt after
  that item's last one: the later items are not attempted and nothing is published. A loop
  that does not fail has captured every item, and \<open>main\<close> publishes what it captured.
\<close>

theorem capture_retry:
  "n < snd (captureItem capture u opts n)
   \<and> snd (captureItem capture u opts n) \<le> n + 3
   \<and> (\<forall>k. n \<le> k \<and> Suc k < snd (captureItem capture u opts n) \<longrightarrow>
         (\<exists>e. capture k u opts = Inl e \<and> \<not> isSelectorNotFound e))
   \<and> (case capture (snd (captureItem capture u opts n) - 1) u opts of
         Inr p \<Rightarrow> fst (captureItem capture u opts n) = Inr p
       | Inl e \<Rightarrow>
           if isSelectorNotFound e then fst (captureItem capture u opts n) = Inl e
           else snd (captureItem capture u opts n) = n + 3
              \<and> fst (captureItem capture u opts n)
                  = Inl (Error (''Failed to capture '' @ u @ '' after 3 attempts: ''
                                 @ errorText (Some e))))
   \<and> (\<forall>e n'. itemsLoop capture body its acc m = (Inl e, n') \<longrightarrow>
         (\<exists>pre item rest m'. its = pre @ item # rest
            \<and> (\<exists>acc'. itemsLoop capture body pre acc m = (Inr acc', m'))
            \<and> captureItem capture (url item) (resolveOptions body item) m' = (Inl e, n')))
   \<and> (\<forall>e n'. itemsLoop capture body (items body) [] 0 = (Inl e, n') \<longrightarrow>
         main capture publish body = (Inl e, n'))
   \<and> (\<forall>pre item rest acc' m' e n'.
         itemsLoop capture body pre acc m = (Inr acc', m')
         \<and> captureItem capture (url item) (resolveOptions body item) m' = (Inl e, n') \<longrightarrow>
         itemsLoop capture body (pre @ item # rest) acc m = (Inl e, n'))
   \<and> (\<forall>pre item rest acc' m' e n'.
         items body = pre @ item # rest
         \<and> itemsLoop capture body pre [] 0 = (Inr acc', m')
         \<and> captureItem capture (url item) (resolveOptions body item) m' = (Inl e, n') \<longrightarrow>
         main capture publish body = (Inl e, n'))
   \<and> (\<forall>ps n'. itemsLoop capture body (items body) [] 0 = (Inr ps, n') \<longrightarrow>
         main capture publish body = (publish ps, n') \<and> length ps = length (items body))"
proof -
  have m1: "main capture publish body = (Inl e, n')"
    if "itemsLoop capture body (items body) [] 0 = (Inl e, n')" for e n'
    using that by (simp add: main_def)
  have ab: "\<exists>pre item rest m'. its = pre @ item # rest
            \<and> (\<exists>acc'. itemsLoop capture body pre acc m = (Inr acc', m'))
            \<and> captureItem capture (url item) (resolveOptions body item) m' = (Inl e, n')"
    if "itemsLoop capture body its acc m = (Inl e, n')" for e n'
    using itemsLoop_abort[OF that] by blast
  have f1: "itemsLoop capture body (pre @ item # rest) acc m = (Inl e, n')"
    if "itemsLoop capture body pre acc m = (Inr acc', m')
         \<and> captureItem capture (url item) (resolveOptions body item) m' = (Inl e, n')"
    for pre item rest acc' m' e n'
    using that itemsLoop_fails by blast
  have f2: "main capture publish body = (Inl e, n')"
    if "items body = pre @ item # rest
         \<and> itemsLoop capture body pre [] 0 = (Inr acc', m')
         \<and> captureItem capture (url item) (resolveOptions body item) m' = (Inl e, n')"
    for pre item rest acc' m' e n'
  proof -
    from that have "itemsLoop capture body (pre @ item # rest) [] 0 = (Inl e, n')"
      using itemsLoop_fails by blast
    with that show ?thesis by (simp add: main_def)
  qed
  have s: "main capture publish body = (publish ps, n') \<and> length ps = length (items body)"
    if "itemsLoop capture body (items body) [] 0 = (Inr ps, n')" for ps n'
    using that itemsLoop_all[OF that] by (simp add: main_def)
  from captureItem_spec[of n capture u opts]
  have c: "n < snd (captureItem capture u opts n)"
    "snd (captureItem capture u opts n) \<le> n + 3"
    "\<forall>k. n \<le> k \<and> Suc k < snd (captureItem capture u opts n) \<longrightarrow>
         (\<exists>e. capture k u opts = Inl e \<and> \<not> isSelectorNotFound e)"
    "case capture (snd (captureItem capture u opts n) - 1) u opts of
         Inr p \<Rightarrow> fst (captureItem capture u opts n) = Inr p
       | Inl e \<Rightarrow>
           if isSelectorNotFound e then fst (captureItem capture u opts n) = Inl e
           else snd (captureItem capture u opts n) = n + 3
              \<and> fst (captureItem capture u opts n)
                  = Inl (Error (''Failed to capture '' @ u @ '' after 3 attempts: ''
                                 @ errorText (Some e)))"
    by blast+
  show ?thesis
    apply (intro conjI allI impI)
    subgoal by (rule c(1))
    subgoal by (rule c(2))
    subgoal for k using c(3) by blast
    subgoal by (rule c(4))
    subgoal for e n' by (rule ab)
    subgoal for e n' by (rule m1)
    subgoal for pre item rest acc' m' e n' by (rule f1)
    subgoal for pre item rest acc' m' e n' by (rule f2)
    subgoal for ps n' using s by blast
    subgoal for ps n' using s by blast
    done
qed

text \<open>
  Three runs of one item (three timeouts; two timeouts, then a page; a timeout, then the
  selector is missing), and two batches of two items: in the first the selector of the
  first item is missing at the first attempt, in the second the first item is captured at its
  third attempt and the second item times out three times. Both batches fail with the
  error of the failing item, after one and after six capture attempts.
\<close>

theorem capture_retry_witness:
  "captureItem (\<lambda>k u opts. Inl (Error ''timeout'') :: thrown + nat) ''https://a''
      \<lparr>selector = Some ''#x'', wait = [], remove = [], o_margin = None, o_padding = None\<rparr> 0
     = (Inl (Error ''Failed to capture https://a after 3 attempts: timeout''), 3)
   \<and> captureItem (\<lambda>k u opts. if k < 2 then Inl (Error ''timeout'') else Inr k) ''https://a''
      \<lparr>selector = Some ''#x'', wait = [], remove = [], o_margin = None, o_padding = None\<rparr> 0
     = (Inr 2, 3)
   \<and> captureItem (\<lambda>k u opts. if k = 1 then Inl (SelectorNotFoundError ''#x'' u) else
                        Inl (Error ''timeout'') :: thrown + nat) ''https://a''
      \<lparr>selector = Some ''#x'', wait = [], remove = [], o_margin = None, o_padding = None\<rparr> 0
     = (Inl (SelectorNotFoundError ''#x'' ''https://a''), 2)
   \<and> main (\<lambda>k u opts. if k = 0 then Inl (SelectorNotFoundError ''#x'' u) else Inr k)
       (\<lambda>ps. Inr ''https://blob/pdfs/1.pdf'')
       \<lparr>name = None,
        b_selectors = Some \<lparr>main_sel = Some ''#x'', wait_sel = None, remove_sel = None\<rparr>,
        b_document = None,
        items = [\<lparr>url = ''https://a'', selectors = None, document = None\<rparr>,
                 \<lparr>url = ''https://b'', selectors = None, document = None\<rparr>]\<rparr>
     = (Inl (SelectorNotFoundError ''#x'' ''https://a''), 1)
   \<and> main (\<lambda>k u opts. if k < 2 then Inl (Error ''timeout'') else
                        if k = 2 then Inr k else Inl (Error ''refused''))
       (\<lambda>ps. Inr ''https://blob/pdfs/1.pdf'')
       \<lparr>name = None,
        b_selectors = Some \<lparr>main_sel = Some ''#x'', wait_sel = None, remove_sel = None\<rparr>,
        b_document = None,
        items = [\<lparr>url = ''https://a'', selectors = None, document = None\<rparr>,
                 \<lparr>url = ''https://b'', selectors = None, document = None\<rparr>]\<rparr>
     = (Inl (Error ''Failed to capture https://b after 3 attempts: refused''), 6)"
proof -
  define opts where
    "opts = \<lparr>selector = Some ''#x'', wait = [], remove = [], o_margin = None, o_padding = None\<rparr>"
  define c1 where "c1 = (\<lambda>(k::nat) (u::string) (opts::CaptureOptions).
      Inl (Error ''timeout'') :: thrown + nat)"
  define ia where "ia = \<lparr>url = ''https://a'', selectors = None, document = None\<rparr>"
  define ib where "ib = \<lparr>url = ''https://b'', selectors = None, document = None\<rparr>"
  define body where "body = \<lparr>name = None,
        b_selectors = Some \<lparr>main_sel = Some ''#x'', wait_sel = None, remove_sel = None\<rparr>,
        b_document = None, items = [ia, ib]\<rparr>"
  define c4 where "c4 = (\<lambda>(k::nat) (u::string) (opts::CaptureOptions).
      if k = 0 then Inl (SelectorNotFoundError ''#x'' u) else Inr k)"
  define c5 where "c5 = (\<lambda>(k::nat) (u::string) (opts::CaptureOptions).
      if k < 2 then Inl (Error ''timeout'') else if k = 2 then Inr k else Inl (Error ''refused''))"
  define publish where "publish = (\<lambda>ps::nat list. Inr ''https://blob/pdfs/1.pdf'' :: thrown + string)"
  have "snd (captureItem c1 ''https://a'' opts 0) = 0 + 3
      \<and> fst (captureItem c1 ''https://a'' opts 0)
          = Inl (Error (''Failed to capture '' @ ''https://a'' @ '' after 3 attempts: ''
                           @ errorText (Some (Error ''timeout''))))"
    using capture_retry[of 0 c1 "''https://a''" opts] by (simp add: c1_def)
  then have 1: "captureItem c1 ''https://a'' opts 0
      = (Inl (Error ''Failed to capture https://a after 3 attempts: timeout''), 3)"
    by (cases "captureItem c1 ''https://a'' opts 0") simp
  have 2: "captureItem (\<lambda>k u opts. if k < 2 then Inl (Error ''timeout'') else Inr k) ''https://a''
      opts 0 = (Inr 2, 3)"
    by (simp add: captureItem_def attemptLoop.simps MAX_ATTEMPTS_def)
  have 3: "captureItem (\<lambda>k u opts. if k = 1 then Inl (SelectorNotFoundError ''#x'' u) else
                        Inl (Error ''timeout'') :: thrown + nat) ''https://a'' opts 0
     = (Inl (SelectorNotFoundError ''#x'' ''https://a''), 2)"
    by (simp add: captureItem_def attemptLoop.simps MAX_ATTEMPTS_def)
  have ro: "resolveOptions body ia = opts" "resolveOptions body ib = opts"
    by (simp_all add: resolveOptions_def orElse_def body_def ia_def ib_def opts_def)
  have 4: "main c4 publish body = (Inl (SelectorNotFoundError ''#x'' ''https://a''), 1)"
  proof -
    have a: "items body = [] @ ia # [ib]" by (simp add: body_def)
    have b: "itemsLoop c4 body [] [] 0 = (Inr [], 0)" by simp
    have c: "captureItem c4 (url ia) (resolveOptions body ia) 0
        = (Inl (SelectorNotFoundError ''#x'' ''https://a''), 1)"
      unfolding ro by (simp add: captureItem_def attemptLoop.simps MAX_ATTEMPTS_def c4_def ia_def)
    from capture_retry[of 0 c4 "''https://a''" opts body "[]" "[]" 0 publish] a b c
    show ?thesis by blast
  qed
  have 5: "main c5 publish body
      = (Inl (Error ''Failed to capture https://b after 3 attempts: refused''), 6)"
  proof -
    have a: "items body = [ia] @ ib # []" by (simp add: body_def)
    have b: "itemsLoop c5 body [ia] [] 0 = (Inr [2], 3)"
      unfolding itemsLoop.simps ro
      by (simp add: captureItem_def attemptLoop.simps MAX_ATTEMPTS_def c5_def ia_def)
    have c: "captureItem c5 (url ib) (resolveOptions body ib) 3
        = (Inl (Error ''Failed to capture https://b after 3 attempts: refused''), 6)"
      unfolding ro
      by (simp add: captureItem_def attemptLoop.simps MAX_ATTEMPTS_def c5_def ib_def
          showNat.simps)
    from capture_retry[of 0 c5 "''https://a''" opts body "[]" "[]" 0 publish] a b c
    show ?thesis by blast
  qed
  from 1 2 3 4 5 show ?thesis
    unfolding c1_def c4_def c5_def opts_def body_def ia_def ib_def publish_def by simp
qed

section \<open>Gradient repair: \<open>fixGradientTransparency\<close> (src/utils/pdf.ts)\<close>

fun seqs :: "rx list \<Rightarrow> rx" where
  "seqs [] = Opt (Cls (\<lambda>c. False))"
| "seqs [x] = x"
| "seqs (x # y # rest) = Seq x (seqs (y # rest))"

definition ch :: "char \<Rightarrow> rx" where
  "ch c = Cls (\<lambda>x. x = c)"

definition word :: "string \<Rightarrow> rx" where
  "word w = seqs (map ch w)"

text \<open>
  \<^verbatim>\<open>\s\<close> matches the white space and line terminator code units; of those that fit in one
  \<open>char\<close> these are tab, line feed, vertical tab, form feed, carriage return, space and
  no-break space.
\<close>

definition isSpace :: "char \<Rightarrow> bool" where
  "isSpace c = (c \<in> set [CHR 0x09, CHR 0x0A, CHR 0x0B, CHR 0x0C, CHR 0x0D, CHR '' '', CHR 0xA0])"

definition ws :: rx where
  "ws = Star (Cls isSpace)"



text \<open>
  \<^verbatim>\<open>/rgba?\(\s*(\d+)\s*[, ]\s*(\d+)\s*[, ]\s*(\d+)(?:\s*[,/]\s*[\d.]+)?\s*\)/g\<close>
\<close>

definition colorRe :: rx where
  "colorRe =
     seqs [word ''rgb'', Opt (ch CHR ''a''), ch CHR ''('', ws,
           Grp (Plus (Cls isDigit)), ws, Cls (\<lambda>c. c = CHR '','' \<or> c = CHR '' ''), ws,
           Grp (Plus (Cls isDigit)), ws, Cls (\<lambda>c. c = CHR '','' \<or> c = CHR '' ''), ws,
           Grp (Plus (Cls isDigit)),
           Opt (seqs [ws, Cls (\<lambda>c. c = CHR '','' \<or> c = CHR ''/''), ws,
                      Plus (Cls (\<lambda>c. isDigit c \<or> c = CHR ''.''))]),
           ws, ch CHR '')'']"


lemma consuming_colorRe: "consuming colorRe"
  by (simp add: colorRe_def word_def ch_def)











subsection \<open>The colour stops, for the statements\<close>

text \<open>
  The colour stops of a background string are its \<open>rgb\<close>/\<open>rgba\<close> tokens, from left to right,
  each with its start index, its end index and its three channel strings.
\<close>

function colorStops :: "string \<Rightarrow> nat \<Rightarrow> (nat \<times> nat \<times> string list) list" where
  "colorStops bg lastIndex =
     (case execFrom colorRe bg lastIndex of
        None \<Rightarrow> []
      | Some (idx, (e, caps)) \<Rightarrow> (idx, e, caps) # colorStops bg e)"
  by pat_completeness auto
termination
  apply (relation "measure (\<lambda>(bg, lastIndex). Suc (length bg) - lastIndex)")
   apply simp
  subgoal premises prems for bg lastIndex x2 x y e caps
  proof -
    from prems have ex: "execFrom colorRe bg lastIndex = Some (x, (e, caps))" by simp
    from execFrom_progress[OF consuming_colorRe ex]
    have "lastIndex < e" "e \<le> length bg" by simp_all
    then show ?thesis by simp
  qed
  done

declare colorStops.simps [simp del]


text \<open>
  The claim speaks of the token \<open>rgba(0,0,0,0)\<close> "in either legacy or modern syntax". The
  spelling of a token is given as a list of pieces: \<open>Lit w\<close> is the characters \<open>w\<close>, \<open>Sp\<close> is
  optional white space, \<open>Sp1\<close> is white space (at least one character) and \<open>Upto x\<close> is any
  run of characters other than \<open>x\<close>. \<open>eat ps t\<close> is the length of the prefix of \<open>t\<close> that
  is spelled \<open>ps\<close>, if \<open>t\<close> begins with such a token. In every spelling below, white space
  is followed by a literal that does not begin with white space, and \<open>Upto x\<close> by a literal
  that begins with \<open>x\<close>, so the longest run is the only one that the rest of the token can
  follow.
\<close>

datatype piece = Lit string | Sp | Sp1 | Upto char



definition modernTransparent :: "piece list" where
  "modernTransparent =
     [Lit ''rgba('', Sp, Lit ''0'', Sp1, Lit ''0'', Sp1, Lit ''0'', Sp, Lit ''/'', Sp, Lit ''0'', Sp,
      Lit '')'']"
















subsection \<open>The regular expressions find the tokens as they are spelled\<close>


fun wfPieces :: "piece list \<Rightarrow> bool" where
  "wfPieces [] = True"
| "wfPieces (Lit w # ps) = (w \<noteq> [] \<and> wfPieces ps)"
| "wfPieces (Sp # ps) = (case ps of Lit w # _ \<Rightarrow> w \<noteq> [] \<and> \<not> isSpace (hd w) \<and> wfPieces ps | _ \<Rightarrow> False)"
| "wfPieces (Sp1 # ps) = (case ps of Lit w # _ \<Rightarrow> w \<noteq> [] \<and> \<not> isSpace (hd w) \<and> wfPieces ps | _ \<Rightarrow> False)"
| "wfPieces (Upto x # ps) = (case ps of Lit w # _ \<Rightarrow> w \<noteq> [] \<and> hd w = x \<and> wfPieces ps | _ \<Rightarrow> False)"

definition run :: "(char \<Rightarrow> bool) \<Rightarrow> string \<Rightarrow> nat \<Rightarrow> nat" where
  "run P s i = length (takeWhile P (drop i s))"














lemma isSpace_simps [simp]:
  "\<not> isSpace CHR ''0''" "\<not> isSpace CHR '',''" "\<not> isSpace CHR ''/''" "\<not> isSpace CHR '')''"
  by (simp_all add: isSpace_def)


lemma wfPieces_modernTransparent: "wfPieces modernTransparent"
  by (simp add: modernTransparent_def)














lemma colorStops_match:
  "(idx, e, caps) \<in> set (colorStops bg li) \<Longrightarrow> (e, caps) \<in> set (rmatch colorRe bg (idx, []))"
proof (induction bg li rule: colorStops.induct)
  case (1 bg li)
  show ?case
  proof (cases "execFrom colorRe bg li")
    case None
    with "1.prems" show ?thesis by (subst (asm) colorStops.simps) simp
  next
    case (Some x)
    obtain idx' e' caps' where x: "x = (idx', (e', caps'))" by (metis prod.exhaust)
    from "1.prems" Some x have "(idx, e, caps) = (idx', e', caps')
        \<or> (idx, e, caps) \<in> set (colorStops bg e')"
      by (subst (asm) colorStops.simps) simp
    then show ?thesis
    proof
      assume eq: "(idx, e, caps) = (idx', e', caps')"
      from execFrom_Some[OF Some[unfolded x]]
      have "rmatch colorRe bg (idx', []) \<noteq> []" "(e', caps') = hd (rmatch colorRe bg (idx', []))"
        by simp_all
      then have "(e', caps') \<in> set (rmatch colorRe bg (idx', []))" by (metis hd_in_set)
      with eq show ?thesis by simp
    next
      assume "(idx, e, caps) \<in> set (colorStops bg e')"
      from "1.IH"[OF Some x[symmetric] refl this] show ?thesis .
    qed
  qed
qed


















section \<open>Text colour: \<open>contrastColor\<close> (src/utils/pdf.ts)\<close>

record RGB =
  r :: real
  g :: real
  b :: real

text \<open>The colour value built by the PDF library's \<open>rgb(red, green, blue)\<close>.\<close>

datatype Color = Rgb real real real

definition rgb :: "real \<Rightarrow> real \<Rightarrow> real \<Rightarrow> Color" where
  "rgb red green blue = Rgb red green blue"

definition toLinear :: "real \<Rightarrow> real" where
  "toLinear c = (let s = c / 255 in if s \<le> 0.04045 then s / 12.92 else ((s + 0.055) / 1.055) powr 2.4)"

definition contrastColor :: "RGB \<Rightarrow> Color" where
  "contrastColor bg =
     (let L = 0.2126 * toLinear (r bg) + 0.7152 * toLinear (g bg) + 0.0722 * toLinear (b bg)
      in if L > 0.179 then rgb 0 0 0 else rgb 1 1 1)"

text \<open>
  The WCAG 2.1 relative luminance as the specification words it: each channel, scaled to
  the unit interval, goes through the piecewise sRGB linearisation, and the three results
  are weighted by 0.2126, 0.7152 and 0.0722.
\<close>

definition srgbLinear :: "real \<Rightarrow> real" where
  "srgbLinear v = (if v \<le> 0.04045 then v / 12.92 else ((v + 0.055) / 1.055) powr 2.4)"

definition wcagLuminance :: "RGB \<Rightarrow> real" where
  "wcagLuminance bg =
     0.2126 * srgbLinear (r bg / 255) + 0.7152 * srgbLinear (g bg / 255)
       + 0.0722 * srgbLinear (b bg / 255)"

text \<open>
  C6. \<open>contrastColor\<close> gives white on the background \<open>{0, 0, 0}\<close> and black on
  \<open>{255, 255, 255}\<close>; on every background it gives black exactly when the WCAG 2.1
  relative luminance is greater than 0.179, and white otherwise.
\<close>

theorem contrastColor_wcag:
  "contrastColor \<lparr>r = 0, g = 0, b = 0\<rparr> = rgb 1 1 1
   \<and> contrastColor \<lparr>r = 255, g = 255, b = 255\<rparr> = rgb 0 0 0
   \<and> contrastColor bg = (if wcagLuminance bg > 0.179 then rgb 0 0 0 else rgb 1 1 1)"
  by (simp add: contrastColor_def toLinear_def wcagLuminance_def srgbLinear_def Let_def rgb_def)

section \<open>Accent colour: \<open>vibrantColorFromPng\<close> (src/utils/pdf.ts)\<close>

text \<open>
  A \<open>Uint8Array\<close> is a list of bytes. \<open>capturePageInput\<close> passes a fresh copy
  (\<open>new Uint8Array(screenshotBuffer)\<close>), so the \<open>DataView\<close> over the underlying buffer
  covers exactly the bytes of the array. Reading a typed array outside its range gives
  \<open>undefined\<close> (\<open>None\<close>); \<open>DataView.getUint32\<close> outside the buffer throws a \<open>RangeError\<close>.
\<close>

type_synonym byte = "8 word"

datatype png_error = RangeError | DecompressError

definition u8 :: "byte list \<Rightarrow> nat \<Rightarrow> byte option" where
  "u8 arr i = (if i < length arr then Some (arr ! i) else None)"

definition getUint32 :: "byte list \<Rightarrow> nat \<Rightarrow> png_error + nat" where
  "getUint32 buf off =
     (if off + 4 \<le> length buf
      then Inr (unat (buf ! off) * 2 ^ 24 + unat (buf ! (off + 1)) * 2 ^ 16
                + unat (buf ! (off + 2)) * 2 ^ 8 + unat (buf ! (off + 3)))
      else Inl RangeError)"

text \<open>The variables of the chunk loop.\<close>

record PngHeader =
  png_width :: nat
  png_height :: nat
  png_bitDepth :: "byte option"
  png_colorType :: "byte option"
  png_idatChunks :: "byte list list"

definition IHDR :: "byte list" where "IHDR = [0x49, 0x48, 0x44, 0x52]"
definition IDAT :: "byte list" where "IDAT = [0x49, 0x44, 0x41, 0x54]"
definition IEND :: "byte list" where "IEND = [0x49, 0x45, 0x4E, 0x44]"

text \<open>
  \<open>String.fromCharCode\<close> of the four type bytes compared with a four-letter name: an
  \<open>undefined\<close> byte becomes the character 0, which is in none of the names.
\<close>

definition chunkType :: "byte list \<Rightarrow> nat \<Rightarrow> byte option list" where
  "chunkType buf offset = map (u8 buf) [offset + 4, offset + 5, offset + 6, offset + 7]"

function parseChunks :: "byte list \<Rightarrow> nat \<Rightarrow> PngHeader \<Rightarrow> png_error + PngHeader" where
  "parseChunks pngBuffer offset st =
     (if offset < length pngBuffer then
        (case getUint32 pngBuffer offset of
           Inl e \<Rightarrow> Inl e
         | Inr len \<Rightarrow>
             (let ty = chunkType pngBuffer offset;
                  dat = sliceJS pngBuffer (offset + 8) (offset + 8 + len)
              in if ty = map Some IHDR then
                   (case getUint32 pngBuffer (offset + 8) of
                      Inl e \<Rightarrow> Inl e
                    | Inr w \<Rightarrow>
                        (case getUint32 pngBuffer (offset + 12) of
                           Inl e \<Rightarrow> Inl e
                         | Inr h \<Rightarrow>
                             parseChunks pngBuffer (offset + (12 + len))
                               (st\<lparr>png_width := w, png_height := h,
                                   png_bitDepth := u8 pngBuffer (offset + 16),
                                   png_colorType := u8 pngBuffer (offset + 17)\<rparr>)))
                 else if ty = map Some IDAT then
                   parseChunks pngBuffer (offset + (12 + len))
                     (st\<lparr>png_idatChunks := png_idatChunks st @ [dat]\<rparr>)
                 else if ty = map Some IEND then Inr st
                 else parseChunks pngBuffer (offset + (12 + len)) st))
      else Inr st)"
  by pat_completeness auto
termination
  by (relation "measure (\<lambda>(pngBuffer, offset, st). length pngBuffer - offset)") auto

declare parseChunks.simps [simp del]

text \<open>
  Scanline reconstruction. The arithmetic of the source is on numbers, followed by
  \<^verbatim>\<open>& 0xff\<close>; an \<open>undefined\<close> raw byte makes the sum \<open>NaN\<close>, which \<^verbatim>\<open>& 0xff\<close> and the store
  into the \<open>Uint8Array\<close> both turn into 0.
\<close>

definition paeth :: "nat \<Rightarrow> nat \<Rightarrow> nat \<Rightarrow> nat" where
  "paeth pxLeft pxAbove pxAboveLeft =
     (let p = int pxLeft + int pxAbove - int pxAboveLeft;
          pa = \<bar>p - int pxLeft\<bar>;
          pb = \<bar>p - int pxAbove\<bar>;
          pc = \<bar>p - int pxAboveLeft\<bar>
      in if pa \<le> pb \<and> pa \<le> pc then pxLeft else if pb \<le> pc then pxAbove else pxAboveLeft)"

definition reconByte :: "byte option \<Rightarrow> byte option \<Rightarrow> byte \<Rightarrow> byte \<Rightarrow> byte \<Rightarrow> byte" where
  "reconByte filterByte rawByte pxLeft pxAbove pxAboveLeft =
     (case rawByte of
        None \<Rightarrow> 0
      | Some rb \<Rightarrow>
          (if filterByte = Some 0 then rb
           else if filterByte = Some 1 then of_nat (unat rb + unat pxLeft)
           else if filterByte = Some 2 then of_nat (unat rb + unat pxAbove)
           else if filterByte = Some 3 then of_nat (unat rb + (unat pxLeft + unat pxAbove) div 2)
           else if filterByte = Some 4
             then of_nat (unat rb + paeth (unat pxLeft) (unat pxAbove) (unat pxAboveLeft))
           else rb))"

function rowLoop :: "byte list \<Rightarrow> nat \<Rightarrow> nat \<Rightarrow> nat \<Rightarrow> nat \<Rightarrow> byte list \<Rightarrow> byte list" where
  "rowLoop raw channels stride y x pixels =
     (if x < stride then
        (let filterByte = u8 raw (y * (stride + 1));
             src = y * (stride + 1) + 1;
             dst = y * stride;
             a = (if channels \<le> x then pixels ! (dst + x - channels) else 0);
             b = (if 0 < y then pixels ! (dst - stride + x) else 0);
             c = (if channels \<le> x \<and> 0 < y then pixels ! (dst - stride + x - channels) else 0);
             rawByte = u8 raw (src + x);
             val = reconByte filterByte rawByte a b c
         in rowLoop raw channels stride y (x + 1) (pixels[dst + x := val]))
      else pixels)"
  by pat_completeness auto
termination
  by (relation "measure (\<lambda>(raw, channels, stride, y, x, pixels). stride - x)") auto

declare rowLoop.simps [simp del]

function defilterLoop :: "byte list \<Rightarrow> nat \<Rightarrow> nat \<Rightarrow> nat \<Rightarrow> nat \<Rightarrow> byte list \<Rightarrow> byte list" where
  "defilterLoop raw channels stride height y pixels =
     (if y < height
      then defilterLoop raw channels stride height (y + 1) (rowLoop raw channels stride y 0 pixels)
      else pixels)"
  by pat_completeness auto
termination
  by (relation "measure (\<lambda>(raw, channels, stride, height, y, pixels). height - y)") auto

declare defilterLoop.simps [simp del]

text \<open>
  Sampling. \<open>vibrantPixel\<close> is the test that a sampled pixel passes: it is not skipped as
  near-transparent, near-gray, near-black or near-white. \<open>Math.round(v / 8) * 8\<close> on a byte
  is \<open>quantize\<close>. The \<open>Map\<close> of buckets keeps insertion order; it is an association list
  from the quantized channels to the count.
\<close>

definition vibrantPixel :: "byte list \<Rightarrow> nat \<Rightarrow> nat \<Rightarrow> bool" where
  "vibrantPixel pixels channels i =
     (let base = i * channels;
          pr = unat (pixels ! base);
          pg = unat (pixels ! (base + 1));
          pb = unat (pixels ! (base + 2));
          pa = (if channels = 4 then unat (pixels ! (base + 3)) else 255);
          mx = max pr (max pg pb);
          mn = min pr (min pg pb)
      in \<not> pa < 200 \<and> \<not> (mx - mn < 30 \<or> mx < 40 \<or> 240 < mx))"

definition quantize :: "nat \<Rightarrow> nat" where
  "quantize v = ((v + 4) div 8) * 8"

fun bump :: "((nat \<times> nat \<times> nat) \<times> nat) list \<Rightarrow> nat \<times> nat \<times> nat \<Rightarrow> ((nat \<times> nat \<times> nat) \<times> nat) list" where
  "bump [] key = [(key, 1)]"
| "bump ((k, count) # rest) key =
     (if k = key then (k, count + 1) # rest else (k, count) # bump rest key)"

function sampleLoop ::
  "byte list \<Rightarrow> nat \<Rightarrow> nat \<Rightarrow> nat \<Rightarrow> nat \<Rightarrow> ((nat \<times> nat \<times> nat) \<times> nat) list
     \<Rightarrow> ((nat \<times> nat \<times> nat) \<times> nat) list" where
  "sampleLoop pixels channels width height i buckets =
     (let step = max 1 ((width * height) div 10000) in
      if i < width * height then
        sampleLoop pixels channels width height (i + step)
          (if vibrantPixel pixels channels i
           then bump buckets (quantize (unat (pixels ! (i * channels))),
                              quantize (unat (pixels ! (i * channels + 1))),
                              quantize (unat (pixels ! (i * channels + 2))))
           else buckets)
      else buckets)"
  by pat_completeness auto
termination
  by (relation "measure (\<lambda>(pixels, channels, width, height, i, buckets). width * height - i)") (auto simp: Let_def max_def)

declare sampleLoop.simps [simp del]

text \<open>
  Scoring, on real numbers: \<open>saturation * log1p(count)\<close>, and the loop that keeps the first
  bucket with the highest score. A bucket comes from a pixel that passed the filters, so its
  largest channel is between 40 and 240 and the denominator is not 0. The statements below
  say when a colour is returned and when it is \<open>{0, 0, 0}\<close>, not which bucket wins.
\<close>

definition score :: "nat \<times> nat \<times> nat \<Rightarrow> nat \<Rightarrow> real" where
  "score key count =
     (case key of (qr, qg, qb) \<Rightarrow>
        (let mx = real (max qr (max qg qb)) / 255;
             mn = real (min qr (min qg qb)) / 255;
             l = (mx + mn) / 2;
             s = (mx - mn) / (1 - \<bar>2 * l - 1\<bar>)
         in s * ln (1 + real count)))"

fun bestLoop :: "((nat \<times> nat \<times> nat) \<times> nat) list \<Rightarrow> RGB \<Rightarrow> real \<Rightarrow> RGB" where
  "bestLoop [] best bestScore = best"
| "bestLoop (((qr, qg, qb), count) # rest) best bestScore =
     (if bestScore < score (qr, qg, qb) count
      then bestLoop rest \<lparr>r = real qr, g = real qg, b = real qb\<rparr> (score (qr, qg, qb) count)
      else bestLoop rest best bestScore)"

text \<open>The values of the variables before the chunk loop.\<close>

definition initHeader :: PngHeader where
  "initHeader = \<lparr>png_width = 0, png_height = 0, png_bitDepth = Some 0, png_colorType = Some 0,
                 png_idatChunks = []\<rparr>"

text \<open>
  \<open>vibrantColorFromPng\<close>. Two things belong to the platform and are parameters:
  \<open>inflate\<close> is what \<open>DecompressionStream("deflate")\<close> makes of the concatenated \<open>IDAT\<close>
  data (\<open>None\<close> when the stream is rejected, which makes the function throw), and
  \<open>maxLength\<close> is the largest length that \<open>new Uint8Array(n)\<close> accepts (a \<open>RangeError\<close>
  beyond it; at most \<open>2^53 - 1\<close>, so the products below are exact).
\<close>

definition vibrantColorFromPng ::
  "(byte list \<Rightarrow> byte list option) \<Rightarrow> nat \<Rightarrow> byte list \<Rightarrow> png_error + RGB" where
  "vibrantColorFromPng inflate maxLength pngBuffer =
     (case parseChunks pngBuffer 8 initHeader of
        Inl e \<Rightarrow> Inl e
      | Inr st \<Rightarrow>
          if png_bitDepth st \<noteq> Some 8
             \<or> (png_colorType st \<noteq> Some 2 \<and> png_colorType st \<noteq> Some 6)
          then Inr \<lparr>r = 0, g = 0, b = 0\<rparr>
          else
            (let channels = (if png_colorType st = Some 6 then 4 else 3);
                 compressed = concat (png_idatChunks st)
             in case inflate compressed of
                  None \<Rightarrow> Inl DecompressError
                | Some raw \<Rightarrow>
                    (let stride = png_width st * channels in
                     if maxLength < png_height st * stride then Inl RangeError
                     else
                       (let pixels = defilterLoop raw channels stride (png_height st) 0
                                       (replicate (png_height st * stride) 0);
                            buckets = sampleLoop pixels channels (png_width st) (png_height st) 0 []
                        in if buckets = [] then Inr \<lparr>r = 0, g = 0, b = 0\<rparr>
                           else Inr (bestLoop buckets \<lparr>r = 128, g = 128, b = 128\<rparr> (- 1))))))"

definition pngSig :: "byte list" where
  "pngSig = [0x89, 0x50, 0x4E, 0x47, 0x0D, 0x0A, 0x1A, 0x0A]"

text \<open>
  For the statements: the number of channels of a header, the pixel array that
  \<open>vibrantColorFromPng\<close> reconstructs from the inflated data, and the indices of the
  pixels that the sampling loop visits.
\<close>

definition pngChannels :: "PngHeader \<Rightarrow> nat" where
  "pngChannels st = (if png_colorType st = Some 6 then 4 else 3)"

definition decodedPixels :: "byte list \<Rightarrow> PngHeader \<Rightarrow> byte list" where
  "decodedPixels raw st =
     defilterLoop raw (pngChannels st) (png_width st * pngChannels st) (png_height st) 0
       (replicate (png_height st * (png_width st * pngChannels st)) 0)"

definition sampledPixel :: "PngHeader \<Rightarrow> nat \<Rightarrow> bool" where
  "sampledPixel st i =
     (i < png_width st * png_height st
      \<and> i mod max 1 ((png_width st * png_height st) div 10000) = 0)"

subsection \<open>Well-formed chunk streams\<close>

text \<open>
  The byte layout of a chunk in a PNG file: the length of the data as a 32-bit big-endian
  number, the four type bytes, the data, and four CRC bytes. A chunk is a triple of type,
  data and CRC.
\<close>

definition be32 :: "nat \<Rightarrow> byte list" where
  "be32 n = [of_nat (n div 2 ^ 24), of_nat (n div 2 ^ 16), of_nat (n div 2 ^ 8), of_nat n]"

definition encodeChunk :: "byte list \<times> byte list \<times> byte list \<Rightarrow> byte list" where
  "encodeChunk ck = (case ck of (ty, dat, crc) \<Rightarrow> be32 (length dat) @ ty @ dat @ crc)"

definition wellFormedChunk :: "byte list \<times> byte list \<times> byte list \<Rightarrow> bool" where
  "wellFormedChunk ck =
     (case ck of (ty, dat, crc) \<Rightarrow>
        length ty = 4 \<and> length crc = 4 \<and> length dat < 2 ^ 32 \<and> (ty = IHDR \<longrightarrow> length dat = 13))"

text \<open>The data of the \<open>IDAT\<close> chunks that come before the first \<open>IEND\<close> chunk.\<close>

definition idatData :: "(byte list \<times> byte list \<times> byte list) list \<Rightarrow> byte list list" where
  "idatData cks =
     map (\<lambda>ck. fst (snd ck)) (filter (\<lambda>ck. fst ck = IDAT) (takeWhile (\<lambda>ck. fst ck \<noteq> IEND) cks))"

lemma be32_value:
  assumes "n < 2 ^ 32"
  shows "unat (of_nat (n div 2 ^ 24) :: byte) * 2 ^ 24 + unat (of_nat (n div 2 ^ 16) :: byte) * 2 ^ 16
       + unat (of_nat (n div 2 ^ 8) :: byte) * 2 ^ 8 + unat (of_nat n :: byte) = n"
proof -
  have u: "unat (of_nat k :: byte) = k mod 256" for k by (simp add: unat_of_nat)
  define x1 where "x1 = n div 256"
  define x2 where "x2 = x1 div 256"
  define x3 where "x3 = x2 div 256"
  have d16: "n div 2 ^ 16 = x2" unfolding x2_def x1_def by (simp add: div_mult2_eq[symmetric])
  have d24: "n div 2 ^ 24 = x3" unfolding x3_def x2_def x1_def by (simp add: div_mult2_eq[symmetric])
  have d8: "n div 2 ^ 8 = x1" unfolding x1_def by simp
  have e0: "n = n mod 256 + 256 * x1" unfolding x1_def by simp
  have e1: "x1 = x1 mod 256 + 256 * x2" unfolding x2_def by simp
  have e2: "x2 = x2 mod 256 + 256 * x3" unfolding x3_def by simp
  from assms have "x3 < 256" unfolding d24[symmetric] by (simp add: less_mult_imp_div_less)
  then have e3: "x3 mod 256 = x3" by simp
  have "x3 * 16777216 + (x2 mod 256) * 65536 + (x1 mod 256) * 256 + n mod 256 = n"
    using e0 e1 e2 by linarith
  then show ?thesis unfolding u d8 d16 d24 e3 by simp
qed

lemma getUint32_be32:
  assumes "n < 2 ^ 32"
  shows "getUint32 (pre @ be32 n @ rest) (length pre) = Inr n"
proof -
  have len: "length (be32 n) = 4" by (simp add: be32_def)
  have n0: "(pre @ be32 n @ rest) ! length pre = of_nat (n div 2 ^ 24)"
    by (simp add: nth_append be32_def)
  have n1: "(pre @ be32 n @ rest) ! (length pre + 1) = of_nat (n div 2 ^ 16)"
    by (simp add: nth_append be32_def)
  have n2: "(pre @ be32 n @ rest) ! (length pre + 2) = of_nat (n div 2 ^ 8)"
    by (simp add: nth_append be32_def)
  have n3: "(pre @ be32 n @ rest) ! (length pre + 3) = of_nat n"
    by (simp add: nth_append be32_def numeral_3_eq_3)
  have "length pre + 4 \<le> length (pre @ be32 n @ rest)" by (simp add: len)
  then show ?thesis
    unfolding getUint32_def n0 n1 n2 n3 using be32_value[OF assms] by simp
qed

definition be32val :: "byte list \<Rightarrow> nat \<Rightarrow> nat" where
  "be32val dat i = unat (dat ! i) * 2 ^ 24 + unat (dat ! (i + 1)) * 2 ^ 16
                   + unat (dat ! (i + 2)) * 2 ^ 8 + unat (dat ! (i + 3))"

lemma encodeChunk_length: "length ty = 4 \<Longrightarrow> length crc = 4 \<Longrightarrow>
    length (encodeChunk (ty, dat, crc)) = 12 + length dat"
  by (simp add: encodeChunk_def be32_def)

lemma chunk_nth_ty:
  assumes "length ty = 4" "k < 4"
  shows "(pre @ encodeChunk (ty, dat, crc) @ rest) ! (length pre + 4 + k) = ty ! k"
proof -
  have "pre @ encodeChunk (ty, dat, crc) @ rest
      = (pre @ be32 (length dat)) @ ty @ (dat @ crc @ rest)"
    by (simp add: encodeChunk_def)
  moreover have "length (pre @ be32 (length dat)) = length pre + 4" by (simp add: be32_def)
  ultimately show ?thesis using assms
    by (metis nth_append_length_plus nth_append)
qed

lemma chunk_nth_dat:
  assumes "length ty = 4" "k < length dat"
  shows "(pre @ encodeChunk (ty, dat, crc) @ rest) ! (length pre + 8 + k) = dat ! k"
proof -
  have "pre @ encodeChunk (ty, dat, crc) @ rest
      = (pre @ be32 (length dat) @ ty) @ dat @ (crc @ rest)"
    by (simp add: encodeChunk_def)
  moreover have "length (pre @ be32 (length dat) @ ty) = length pre + 8"
    using assms(1) by (simp add: be32_def)
  ultimately show ?thesis using assms(2)
    by (metis nth_append_length_plus nth_append)
qed

lemma chunk_slice_dat:
  assumes "length ty = 4"
  shows "sliceJS (pre @ encodeChunk (ty, dat, crc) @ rest) (length pre + 8)
           (length pre + 8 + length dat) = dat"
proof -
  have "pre @ encodeChunk (ty, dat, crc) @ rest
      = (pre @ be32 (length dat) @ ty) @ dat @ (crc @ rest)"
    by (simp add: encodeChunk_def)
  moreover have "length (pre @ be32 (length dat) @ ty) = length pre + 8"
    using assms(1) by (simp add: be32_def)
  ultimately show ?thesis by (simp add: sliceJS_def)
qed

lemma chunkType_encoded:
  assumes "length ty = 4"
  shows "chunkType (pre @ encodeChunk (ty, dat, crc) @ rest) (length pre) = map Some ty"
proof -
  let ?buf = "pre @ encodeChunk (ty, dat, crc) @ rest"
  have len: "length pre + 8 \<le> length ?buf"
    using assms by (simp add: encodeChunk_def be32_def)
  have u: "u8 ?buf (length pre + 4 + k) = Some (ty ! k)" if "k < 4" for k
    using chunk_nth_ty[OF assms that, of pre dat crc rest] len that by (simp add: u8_def)
  from assms obtain t0 t1 t2 t3 where ty: "ty = [t0, t1, t2, t3]"
    by (cases ty; simp; rename_tac a l; case_tac l; simp; rename_tac a l; case_tac l; simp;
        rename_tac a l; case_tac l; simp)
  from u[of 0] u[of 1] u[of 2] u[of 3] show ?thesis
    unfolding chunkType_def ty by (simp add: numeral_3_eq_3 add.commute add.left_commute)
qed

lemma getUint32_dat:
  assumes "length ty = 4" "i + 4 \<le> length dat"
  shows "getUint32 (pre @ encodeChunk (ty, dat, crc) @ rest) (length pre + 8 + i)
       = Inr (be32val dat i)"
proof -
  let ?buf = "pre @ encodeChunk (ty, dat, crc) @ rest"
  have len: "length pre + 8 + i + 4 \<le> length ?buf"
    using assms by (simp add: encodeChunk_def be32_def)
  have n: "?buf ! (length pre + 8 + i + k) = dat ! (i + k)" if "k < 4" for k
    using chunk_nth_dat[OF assms(1), of "i + k" dat pre crc rest] that assms(2)
    by (simp add: add.assoc)
  from n[of 0] n[of 1] n[of 2] n[of 3] len show ?thesis
    by (simp add: getUint32_def be32val_def)
qed

lemma u8_dat:
  assumes "length ty = 4" "k < length dat"
  shows "u8 (pre @ encodeChunk (ty, dat, crc) @ rest) (length pre + 8 + k) = Some (dat ! k)"
proof -
  have "length pre + 8 + k < length (pre @ encodeChunk (ty, dat, crc) @ rest)"
    using assms by (simp add: encodeChunk_def be32_def)
  with chunk_nth_dat[OF assms, of pre crc rest] show ?thesis by (simp add: u8_def)
qed

lemma parseChunks_step:
  assumes wf: "wellFormedChunk (ty, dat, crc)"
    and buf: "buf = pre @ encodeChunk (ty, dat, crc) @ rest"
  shows "parseChunks buf (length pre) st =
     (if ty = IHDR then
        parseChunks buf (length pre + (12 + length dat))
          (st\<lparr>png_width := be32val dat 0, png_height := be32val dat 4,
              png_bitDepth := Some (dat ! 8), png_colorType := Some (dat ! 9)\<rparr>)
      else if ty = IDAT then
        parseChunks buf (length pre + (12 + length dat))
          (st\<lparr>png_idatChunks := png_idatChunks st @ [dat]\<rparr>)
      else if ty = IEND then Inr st
      else parseChunks buf (length pre + (12 + length dat)) st)"
proof -
  from wf have l: "length ty = 4" "length crc = 4" "length dat < 2 ^ 32"
    and ih: "ty = IHDR \<Longrightarrow> length dat = 13"
    by (simp_all add: wellFormedChunk_def)
  have lt: "length pre < length buf" using l by (simp add: buf encodeChunk_def be32_def)
  have g: "getUint32 buf (length pre) = Inr (length dat)"
    unfolding buf encodeChunk_def prod.case using getUint32_be32[OF l(3), of pre] by simp
  have ct: "chunkType buf (length pre) = map Some ty"
    unfolding buf by (rule chunkType_encoded[OF l(1)])
  have inj: "map Some ty = map Some t' \<longleftrightarrow> ty = t'" for t' :: "byte list"
    by (simp add: inj_map_eq_map)
  have sl: "sliceJS buf (length pre + 8) (length pre + 8 + length dat) = dat"
    unfolding buf by (rule chunk_slice_dat[OF l(1)])
  have hd: "getUint32 buf (length pre + 8) = Inr (be32val dat 0)"
    "getUint32 buf (length pre + 12) = Inr (be32val dat 4)"
    "u8 buf (length pre + 16) = Some (dat ! 8)"
    "u8 buf (length pre + 17) = Some (dat ! 9)" if "ty = IHDR"
  proof -
    from ih[OF that] have d: "length dat = 13" .
    show "getUint32 buf (length pre + 8) = Inr (be32val dat 0)"
      using getUint32_dat[OF l(1), of 0 dat pre crc rest] d by (simp add: buf)
    show "getUint32 buf (length pre + 12) = Inr (be32val dat 4)"
      using getUint32_dat[OF l(1), of 4 dat pre crc rest] d by (simp add: buf add.commute)
    show "u8 buf (length pre + 16) = Some (dat ! 8)"
      using u8_dat[OF l(1), of 8 dat pre crc rest] d by (simp add: buf add.commute)
    show "u8 buf (length pre + 17) = Some (dat ! 9)"
      using u8_dat[OF l(1), of 9 dat pre crc rest] d by (simp add: buf add.commute)
  qed
  show ?thesis
    by (subst parseChunks.simps) (simp add: lt g ct inj sl hd Let_def)
qed

lemma parseChunks_end: "parseChunks pre (length pre) st = Inr st"
  by (subst parseChunks.simps) simp

lemma parseChunks_wellformed:
  assumes "\<forall>ck \<in> set cks. wellFormedChunk ck"
  shows "\<exists>st'. parseChunks (pre @ concat (map encodeChunk cks)) (length pre) st = Inr st'
           \<and> png_idatChunks st' = png_idatChunks st @ idatData cks
           \<and> ((\<forall>ck \<in> set cks. fst ck \<noteq> IHDR) \<longrightarrow>
                 png_bitDepth st' = png_bitDepth st \<and> png_colorType st' = png_colorType st
                 \<and> png_width st' = png_width st \<and> png_height st' = png_height st)"
  using assms
proof (induction cks arbitrary: pre st)
  case Nil
  then show ?case by (simp add: parseChunks_end idatData_def)
next
  case (Cons ck cks)
  obtain ty dat crc where ck: "ck = (ty, dat, crc)" by (cases ck)
  from Cons.prems have wf: "wellFormedChunk (ty, dat, crc)"
    and rest: "\<forall>c \<in> set cks. wellFormedChunk c" by (simp_all add: ck)
  from wf have l: "length ty = 4" "length crc = 4" by (simp_all add: wellFormedChunk_def)
  let ?buf = "pre @ concat (map encodeChunk (ck # cks))"
  let ?pre' = "pre @ encodeChunk (ty, dat, crc)"
  have buf: "?buf = pre @ encodeChunk (ty, dat, crc) @ concat (map encodeChunk cks)"
    by (simp add: ck)
  have buf': "?buf = ?pre' @ concat (map encodeChunk cks)" by (simp add: ck)
  have len: "length pre + (12 + length dat) = length ?pre'"
    using encodeChunk_length[OF l, of dat] by simp
  note step = parseChunks_step[OF wf buf, of st, unfolded len]
  note ih = Cons.IH[OF rest, of ?pre', folded buf']
  have ne: "IHDR \<noteq> IDAT" "IHDR \<noteq> IEND" "IDAT \<noteq> IEND"
    by (simp_all add: IHDR_def IDAT_def IEND_def)
  show ?case
  proof (cases "ty = IHDR")
    case True
    with step ne ih[of "st\<lparr>png_width := be32val dat 0, png_height := be32val dat 4,
        png_bitDepth := Some (dat ! 8), png_colorType := Some (dat ! 9)\<rparr>"]
    show ?thesis by (auto simp: ck idatData_def)
  next
    case nI: False
    show ?thesis
    proof (cases "ty = IDAT")
      case True
      with nI step ne ih[of "st\<lparr>png_idatChunks := png_idatChunks st @ [dat]\<rparr>"]
      show ?thesis by (auto simp: ck idatData_def)
    next
      case nD: False
      show ?thesis
      proof (cases "ty = IEND")
        case True
        with nI nD step show ?thesis by (simp add: ck idatData_def)
      next
        case False
        with nI nD step ih[of st] show ?thesis by (auto simp: ck idatData_def)
      qed
    qed
  qed
qed

text \<open>
  A stream that begins with its \<open>IHDR\<close> chunk and has no other: the header read is the one
  that the chunk declares, and the compressed data are those of the \<open>IDAT\<close> chunks before
  \<open>IEND\<close>.
\<close>

lemma parseChunks_png:
  assumes sig: "length sig = 8"
    and hd: "wellFormedChunk (IHDR, dat, crc)"
    and cks: "\<forall>ck \<in> set cks. wellFormedChunk ck \<and> fst ck \<noteq> IHDR"
  shows "parseChunks (sig @ concat (map encodeChunk ((IHDR, dat, crc) # cks))) 8 initHeader
       = Inr \<lparr>png_width = be32val dat 0, png_height = be32val dat 4,
              png_bitDepth = Some (dat ! 8), png_colorType = Some (dat ! 9),
              png_idatChunks = idatData cks\<rparr>"
proof -
  let ?buf = "sig @ concat (map encodeChunk ((IHDR, dat, crc) # cks))"
  let ?pre' = "sig @ encodeChunk (IHDR, dat, crc)"
  let ?st = "initHeader\<lparr>png_width := be32val dat 0, png_height := be32val dat 4,
        png_bitDepth := Some (dat ! 8), png_colorType := Some (dat ! 9)\<rparr>"
  from hd have l: "length IHDR = 4" "length crc = 4" by (simp_all add: wellFormedChunk_def)
  have buf: "?buf = sig @ encodeChunk (IHDR, dat, crc) @ concat (map encodeChunk cks)" by simp
  have buf': "?buf = ?pre' @ concat (map encodeChunk cks)" by simp
  have len: "length sig + (12 + length dat) = length ?pre'"
    using encodeChunk_length[OF l, of dat] by simp
  from parseChunks_step[OF hd buf, of initHeader, unfolded len]
  have step: "parseChunks ?buf 8 initHeader = parseChunks ?buf (length ?pre') ?st"
    using sig by simp
  from cks have wf: "\<forall>ck \<in> set cks. wellFormedChunk ck" and no: "\<forall>ck \<in> set cks. fst ck \<noteq> IHDR"
    by simp_all
  from parseChunks_wellformed[OF wf, of ?pre' ?st, folded buf'] no
  obtain st' where st': "parseChunks ?buf (length ?pre') ?st = Inr st'"
    "png_idatChunks st' = png_idatChunks ?st @ idatData cks"
    "png_bitDepth st' = png_bitDepth ?st" "png_colorType st' = png_colorType ?st"
    "png_width st' = png_width ?st" "png_height st' = png_height ?st" by blast
  from st'(2-6) have "st' = \<lparr>png_width = be32val dat 0, png_height = be32val dat 4,
              png_bitDepth = Some (dat ! 8), png_colorType = Some (dat ! 9),
              png_idatChunks = idatData cks\<rparr>"
    by (cases st') (simp add: initHeader_def)
  with step st'(1) show ?thesis by simp
qed

lemma sampleLoop_none:
  "buckets = [] \<Longrightarrow>
   (\<And>j. i \<le> j \<Longrightarrow> j < width * height \<Longrightarrow>
      (j - i) mod max 1 ((width * height) div 10000) = 0 \<Longrightarrow>
      \<not> vibrantPixel pixels channels j) \<Longrightarrow>
   sampleLoop pixels channels width height i buckets = []"
proof (induction pixels channels width height i buckets rule: sampleLoop.induct)
  case (1 pixels channels width height i buckets)
  define step where "step = max 1 ((width * height) div 10000)"
  have pos: "0 < step" by (simp add: step_def)
  show ?case
  proof (cases "i < width * height")
    case False
    with "1.prems"(1) show ?thesis by (subst sampleLoop.simps) (simp add: Let_def)
  next
    case True
    from "1.prems"(2)[of i] True have nv: "\<not> vibrantPixel pixels channels i" by simp
    have rec: "sampleLoop pixels channels width height (i + step)
        (if vibrantPixel pixels channels i
         then bump buckets (quantize (unat (pixels ! (i * channels))),
                            quantize (unat (pixels ! (i * channels + 1))),
                            quantize (unat (pixels ! (i * channels + 2))))
         else buckets) = []"
    proof (rule "1.IH"[OF step_def True])
      show "(if vibrantPixel pixels channels i
         then bump buckets (quantize (unat (pixels ! (i * channels))),
                            quantize (unat (pixels ! (i * channels + 1))),
                            quantize (unat (pixels ! (i * channels + 2))))
         else buckets) = []" using nv "1.prems"(1) by simp
    next
      fix j assume j: "i + step \<le> j" "j < width * height"
        "(j - (i + step)) mod max 1 ((width * height) div 10000) = 0"
      from j(1) have "j - i = (j - (i + step)) + step" by simp
      with j(3) have "(j - i) mod max 1 ((width * height) div 10000) = 0"
        by (simp add: step_def)
      with "1.prems"(2)[of j] j show "\<not> vibrantPixel pixels channels j" by simp
    qed
    from rec nv True show ?thesis
      unfolding step_def by (subst sampleLoop.simps) (simp add: Let_def)
  qed
qed

subsection \<open>The reads of the pixel array stay in range\<close>

lemma rowLoop_length: "length (rowLoop raw channels stride y x pixels) = length pixels"
proof (induction raw channels stride y x pixels rule: rowLoop.induct)
  case (1 raw channels stride y x pixels)
  show ?case
  proof (cases "x < stride")
    case True
    with "1.IH"[OF True refl refl refl refl refl refl refl refl] show ?thesis
      by (subst rowLoop.simps) (simp add: Let_def)
  next
    case False
    then show ?thesis by (subst rowLoop.simps) simp
  qed
qed

lemma defilterLoop_length:
  "length (defilterLoop raw channels stride height y pixels) = length pixels"
proof (induction raw channels stride height y pixels rule: defilterLoop.induct)
  case (1 raw channels stride height y pixels)
  show ?case
  proof (cases "y < height")
    case True
    with "1.IH"[OF True] show ?thesis
      by (subst defilterLoop.simps) (simp add: rowLoop_length)
  next
    case False
    then show ?thesis by (subst defilterLoop.simps) simp
  qed
qed

lemma sample_reads_in_range:
  assumes "i < width * height" "k < channels"
  shows "i * channels + k < length (defilterLoop raw channels (width * channels) height 0
                                     (replicate (height * (width * channels)) 0))"
proof -
  from assms(1) have "Suc i \<le> width * height" by simp
  then have "Suc i * channels \<le> width * height * channels" by (rule mult_le_mono1)
  with assms(2) have "i * channels + k < width * height * channels" by simp
  then show ?thesis by (simp add: defilterLoop_length mult.commute mult.left_commute)
qed

lemma row_reads_in_range:
  assumes "y < height" "x < stride" "length pixels = height * stride"
  shows "y * stride + x < length pixels"
proof -
  from assms(1) have "Suc y * stride \<le> height * stride" by (intro mult_le_mono1) simp
  with assms(2,3) show ?thesis by simp
qed

subsection \<open>The results of \<open>vibrantColorFromPng\<close>\<close>

lemma vibrantColorFromPng_unsupported:
  assumes "parseChunks pngBuffer 8 initHeader = Inr st"
    and "png_bitDepth st \<noteq> Some 8 \<or> (png_colorType st \<noteq> Some 2 \<and> png_colorType st \<noteq> Some 6)"
  shows "vibrantColorFromPng inflate maxLength pngBuffer = Inr \<lparr>r = 0, g = 0, b = 0\<rparr>"
  using assms by (auto simp: vibrantColorFromPng_def)

lemma vibrantColorFromPng_cases:
  "case parseChunks pngBuffer 8 initHeader of
     Inl e \<Rightarrow> vibrantColorFromPng inflate maxLength pngBuffer = Inl e
   | Inr st \<Rightarrow>
       if png_bitDepth st \<noteq> Some 8
          \<or> (png_colorType st \<noteq> Some 2 \<and> png_colorType st \<noteq> Some 6)
       then vibrantColorFromPng inflate maxLength pngBuffer = Inr \<lparr>r = 0, g = 0, b = 0\<rparr>
       else (case inflate (concat (png_idatChunks st)) of
               None \<Rightarrow> vibrantColorFromPng inflate maxLength pngBuffer = Inl DecompressError
             | Some raw \<Rightarrow>
                 if maxLength < png_height st * (png_width st * pngChannels st)
                 then vibrantColorFromPng inflate maxLength pngBuffer = Inl RangeError
                 else \<exists>c. vibrantColorFromPng inflate maxLength pngBuffer = Inr c)"
  by (simp add: vibrantColorFromPng_def pngChannels_def Let_def split: sum.splits option.splits)

lemma vibrantColorFromPng_no_vibrant:
  assumes "parseChunks pngBuffer 8 initHeader = Inr st"
    and "png_bitDepth st = Some 8"
    and "png_colorType st = Some 2 \<or> png_colorType st = Some 6"
    and "inflate (concat (png_idatChunks st)) = Some raw"
    and "png_height st * (png_width st * pngChannels st) \<le> maxLength"
    and "\<forall>i. sampledPixel st i \<longrightarrow> \<not> vibrantPixel (decodedPixels raw st) (pngChannels st) i"
  shows "vibrantColorFromPng inflate maxLength pngBuffer = Inr \<lparr>r = 0, g = 0, b = 0\<rparr>"
proof -
  have "sampleLoop (decodedPixels raw st) (pngChannels st) (png_width st) (png_height st) 0 [] = []"
  proof (rule sampleLoop_none[OF refl])
    fix j assume "0 \<le> j" "j < png_width st * png_height st"
      "(j - 0) mod max 1 ((png_width st * png_height st) div 10000) = 0"
    then have "sampledPixel st j" by (simp add: sampledPixel_def)
    with assms(6) show "\<not> vibrantPixel (decodedPixels raw st) (pngChannels st) j" by blast
  qed
  with assms(1-5) show ?thesis
    by (auto simp: vibrantColorFromPng_def Let_def decodedPixels_def pngChannels_def)
qed


text \<open>
  C4, as the claim states it, fails. A buffer of nine bytes makes the first chunk length read
  go past the end of the buffer, which throws a \<open>RangeError\<close>. And the \<open>IDAT\<close> data of an
  8-bit RGB image can be two bytes that are no deflate stream (\<open>FF FF\<close>); the platform
  rejects them, and the rejection is thrown.
\<close>

theorem vibrantColorFromPng_throws_counterexample:
  "vibrantColorFromPng (\<lambda>d. Some d) 1000 (pngSig @ [0]) = Inl RangeError
   \<and> vibrantColorFromPng (\<lambda>d. if d = [0xFF, 0xFF] then None else Some d) 1000
        (pngSig @ concat (map encodeChunk
           [(IHDR, [0, 0, 0, 1, 0, 0, 0, 1, 8, 2, 0, 0, 0], [0, 0, 0, 0]),
            (IDAT, [0xFF, 0xFF], [0, 0, 0, 0]),
            (IEND, [], [0, 0, 0, 0])]))
       = Inl DecompressError"
proof -
  have a: "parseChunks (pngSig @ [0]) 8 initHeader = Inl RangeError"
    by (subst parseChunks.simps) (simp add: pngSig_def getUint32_def)
  have b: "parseChunks
        (pngSig @ concat (map encodeChunk
           ((IHDR, [0, 0, 0, 1, 0, 0, 0, 1, 8, 2, 0, 0, 0], [0, 0, 0, 0])
            # [(IDAT, [0xFF, 0xFF], [0, 0, 0, 0]), (IEND, [], [0, 0, 0, 0])]))) 8 initHeader
      = Inr \<lparr>png_width = be32val [0, 0, 0, 1, 0, 0, 0, 1, 8, 2, 0, 0, 0] 0,
             png_height = be32val [0, 0, 0, 1, 0, 0, 0, 1, 8, 2, 0, 0, 0] 4,
             png_bitDepth = Some ([0, 0, 0, 1, 0, 0, 0, 1, 8, 2, 0, 0, 0] ! 8),
             png_colorType = Some ([0, 0, 0, 1, 0, 0, 0, 1, 8, 2, 0, 0, 0] ! 9),
             png_idatChunks = idatData [(IDAT, [0xFF, 0xFF], [0, 0, 0, 0]), (IEND, [], [0, 0, 0, 0])]\<rparr>"
    by (rule parseChunks_png) (simp_all add: pngSig_def wellFormedChunk_def IHDR_def IDAT_def IEND_def)
  have i: "idatData [(IDAT, [0xFF, 0xFF], [0, 0, 0, 0]), (IEND, [], [0, 0, 0, 0])] = [[0xFF, 0xFF]]"
    by (simp add: idatData_def IDAT_def IEND_def)
  show ?thesis
    using b by (simp add: vibrantColorFromPng_def a i)
qed

text \<open>
  C4, amended. On an input made of eight signature bytes followed by complete chunks the
  chunk loop ends without an error. Whenever the chunk loop ends without an error,
  \<open>vibrantColorFromPng\<close> returns \<open>{0, 0, 0}\<close> for an unsupported format, and for a supported
  one it returns a colour unless the platform rejects the \<open>IDAT\<close> data or cannot allocate
  the pixel array; an error of the chunk loop is thrown on. So for a stream that begins with
  its only \<open>IHDR\<close> chunk, whose \<open>IDAT\<close> data the platform accepts and whose pixel array can
  be allocated, a colour is returned.
\<close>

theorem vibrantColorFromPng_outcomes:
  "(length sig = 8 \<and> (\<forall>ck \<in> set cks. wellFormedChunk ck) \<longrightarrow>
      (\<exists>st. parseChunks (sig @ concat (map encodeChunk cks)) 8 initHeader = Inr st))
   \<and> (case parseChunks pngBuffer 8 initHeader of
         Inl e \<Rightarrow> vibrantColorFromPng inflate maxLength pngBuffer = Inl e
       | Inr st \<Rightarrow>
           if png_bitDepth st \<noteq> Some 8
              \<or> (png_colorType st \<noteq> Some 2 \<and> png_colorType st \<noteq> Some 6)
           then vibrantColorFromPng inflate maxLength pngBuffer = Inr \<lparr>r = 0, g = 0, b = 0\<rparr>
           else (case inflate (concat (png_idatChunks st)) of
                   None \<Rightarrow> vibrantColorFromPng inflate maxLength pngBuffer = Inl DecompressError
                 | Some raw \<Rightarrow>
                     if maxLength < png_height st * (png_width st * pngChannels st)
                     then vibrantColorFromPng inflate maxLength pngBuffer = Inl RangeError
                     else \<exists>c. vibrantColorFromPng inflate maxLength pngBuffer = Inr c))
   \<and> (length sig = 8 \<and> wellFormedChunk (IHDR, dat, crc)
        \<and> (\<forall>ck \<in> set cks. wellFormedChunk ck \<and> fst ck \<noteq> IHDR)
        \<and> inflate (concat (idatData cks)) \<noteq> None
        \<and> be32val dat 4 * (be32val dat 0 * 4) \<le> maxLength
      \<longrightarrow> (\<exists>c. vibrantColorFromPng inflate maxLength
                 (sig @ concat (map encodeChunk ((IHDR, dat, crc) # cks))) = Inr c))"
proof -
  have 1: "\<exists>st. parseChunks (sig @ concat (map encodeChunk cks)) 8 initHeader = Inr st"
    if "length sig = 8" "\<forall>ck \<in> set cks. wellFormedChunk ck"
    using parseChunks_wellformed[OF that(2), of sig initHeader] that(1) by auto
  have 3: "\<exists>c. vibrantColorFromPng inflate maxLength
                 (sig @ concat (map encodeChunk ((IHDR, dat, crc) # cks))) = Inr c"
    if h: "length sig = 8" "wellFormedChunk (IHDR, dat, crc)"
      "\<forall>ck \<in> set cks. wellFormedChunk ck \<and> fst ck \<noteq> IHDR"
      "inflate (concat (idatData cks)) \<noteq> None"
      "be32val dat 4 * (be32val dat 0 * 4) \<le> maxLength"
  proof -
    let ?buf = "sig @ concat (map encodeChunk ((IHDR, dat, crc) # cks))"
    note p = parseChunks_png[OF h(1,2,3)]
    from h(4) obtain raw where raw: "inflate (concat (idatData cks)) = Some raw" by auto
    have "be32val dat 4 * (be32val dat 0 * 3) \<le> be32val dat 4 * (be32val dat 0 * 4)" by simp
    with h(5) have le: "be32val dat 4 * (be32val dat 0 * 3) \<le> maxLength" by simp
    from vibrantColorFromPng_cases[where pngBuffer = ?buf and inflate = inflate
        and maxLength = maxLength] h(5) le raw
    show ?thesis unfolding p by (auto simp: pngChannels_def split: if_splits)
  qed
  from 1 3 vibrantColorFromPng_cases[where pngBuffer = pngBuffer and inflate = inflate
      and maxLength = maxLength]
  show ?thesis by blast
qed

text \<open>
  A stream with a 16-bit \<open>IHDR\<close> and \<open>IEND\<close>: the chunk loop ends. And a one-pixel 8-bit RGB
  image whose \<open>IDAT\<close> chunk holds the stored deflate block of the scanline \<open>00 0A 0A 0A\<close>, on
  a platform that inflates it: a colour is returned.
\<close>

theorem vibrantColorFromPng_outcomes_witness:
  "length pngSig = 8
   \<and> wellFormedChunk (IHDR, [0, 0, 0, 1, 0, 0, 0, 1, 16, 2, 0, 0, 0], [0, 0, 0, 0])
   \<and> wellFormedChunk (IEND, [], [0, 0, 0, 0])
   \<and> (\<exists>st. parseChunks
              (pngSig @ concat (map encodeChunk
                 [(IHDR, [0, 0, 0, 1, 0, 0, 0, 1, 16, 2, 0, 0, 0], [0, 0, 0, 0]),
                  (IEND, [], [0, 0, 0, 0])])) 8 initHeader = Inr st)
   \<and> (\<exists>c. vibrantColorFromPng
              (\<lambda>d. if d = [0x78, 0x01, 0x01, 0x04, 0x00, 0xFB, 0xFF, 0x00, 0x0A, 0x0A, 0x0A,
                             0x00, 0x40, 0x00, 0x1F]
                    then Some [0x00, 0x0A, 0x0A, 0x0A] else None) 1000
              (pngSig @ concat (map encodeChunk
                 [(IHDR, [0, 0, 0, 1, 0, 0, 0, 1, 8, 2, 0, 0, 0], [0, 0, 0, 0]),
                  (IDAT, [0x78, 0x01, 0x01, 0x04, 0x00, 0xFB, 0xFF, 0x00, 0x0A, 0x0A, 0x0A,
                          0x00, 0x40, 0x00, 0x1F], [0, 0, 0, 0]),
                  (IEND, [], [0, 0, 0, 0])])) = Inr c)"
proof -
  define z :: "byte list" where "z = [0x78, 0x01, 0x01, 0x04, 0x00, 0xFB, 0xFF, 0x00, 0x0A, 0x0A, 0x0A,
                             0x00, 0x40, 0x00, 0x1F]"
  define inflate where "inflate = (\<lambda>d. if d = z then Some [0x00, 0x0A, 0x0A, 0x0A :: byte] else None)"
  have l: "length pngSig = 8" by (simp add: pngSig_def)
  have w1: "wellFormedChunk (IHDR, [0, 0, 0, 1, 0, 0, 0, 1, 16, 2, 0, 0, 0], [0, 0, 0, 0])"
    by (simp add: wellFormedChunk_def IHDR_def)
  have w2: "wellFormedChunk (IEND, [], [0, 0, 0, 0])"
    by (simp add: wellFormedChunk_def IEND_def IHDR_def)
  have w3: "wellFormedChunk (IHDR, [0, 0, 0, 1, 0, 0, 0, 1, 8, 2, 0, 0, 0], [0, 0, 0, 0])"
    by (simp add: wellFormedChunk_def IHDR_def)
  have w4: "\<forall>ck \<in> set [(IDAT, z, [0, 0, 0, 0]), (IEND, [], [0, 0, 0, 0])].
      wellFormedChunk ck \<and> fst ck \<noteq> IHDR"
    by (simp add: wellFormedChunk_def IHDR_def IDAT_def IEND_def z_def)
  have i: "idatData [(IDAT, z, [0, 0, 0, 0]), (IEND, [], [0, 0, 0, 0])] = [z]"
    by (simp add: idatData_def IDAT_def IEND_def)
  have inf: "inflate (concat (idatData [(IDAT, z, [0, 0, 0, 0]), (IEND, [], [0, 0, 0, 0])])) \<noteq> None"
    unfolding i by (simp add: inflate_def)
  have sz: "be32val [0, 0, 0, 1, 0, 0, 0, 1, 8, 2, 0, 0, 0] 4
      * (be32val [0, 0, 0, 1, 0, 0, 0, 1, 8, 2, 0, 0, 0] 0 * 4) \<le> 1000"
    by (simp add: be32val_def)
  from vibrantColorFromPng_outcomes[where sig = pngSig and cks =
      "[(IHDR, [0, 0, 0, 1, 0, 0, 0, 1, 16, 2, 0, 0, 0], [0, 0, 0, 0]), (IEND, [], [0, 0, 0, 0])]"]
    l w1 w2
  have a: "\<exists>st. parseChunks
              (pngSig @ concat (map encodeChunk
                 [(IHDR, [0, 0, 0, 1, 0, 0, 0, 1, 16, 2, 0, 0, 0], [0, 0, 0, 0]),
                  (IEND, [], [0, 0, 0, 0])])) 8 initHeader = Inr st" by simp
  from vibrantColorFromPng_outcomes[where sig = pngSig
      and cks = "[(IDAT, z, [0, 0, 0, 0]), (IEND, [], [0, 0, 0, 0])]"
      and inflate = inflate and maxLength = 1000
      and dat = "[0, 0, 0, 1, 0, 0, 0, 1, 8, 2, 0, 0, 0]" and crc = "[0, 0, 0, 0]"]
    l w3 w4 inf sz
  have b: "\<exists>c. vibrantColorFromPng inflate 1000
              (pngSig @ concat (map encodeChunk
                 ((IHDR, [0, 0, 0, 1, 0, 0, 0, 1, 8, 2, 0, 0, 0], [0, 0, 0, 0])
                  # [(IDAT, z, [0, 0, 0, 0]), (IEND, [], [0, 0, 0, 0])]))) = Inr c" by blast
  from l w1 w2 a b show ?thesis unfolding inflate_def z_def by blast
qed

text \<open>
  C5. A stream that begins with its only \<open>IHDR\<close> chunk, which declares a bit depth other
  than 8 or a colour type other than 2 and 6, gives \<open>{0, 0, 0}\<close> whatever the platform's
  decompression would do (\<open>inflate\<close> is arbitrary, so it is not consulted); so does every
  input whose chunk loop ends with such a bit depth or colour type. And a supported image
  whose data are inflated, whose pixel array is allocated and none of whose sampled pixels
  passes the filters gives \<open>{0, 0, 0}\<close> too.
\<close>

theorem vibrantColorFromPng_black:
  "(length sig = 8 \<and> wellFormedChunk (IHDR, dat, crc)
      \<and> (\<forall>ck \<in> set cks. wellFormedChunk ck \<and> fst ck \<noteq> IHDR)
      \<and> (dat ! 8 \<noteq> 8 \<or> (dat ! 9 \<noteq> 2 \<and> dat ! 9 \<noteq> 6))
    \<longrightarrow> vibrantColorFromPng inflate maxLength
          (sig @ concat (map encodeChunk ((IHDR, dat, crc) # cks))) = Inr \<lparr>r = 0, g = 0, b = 0\<rparr>)
   \<and> (parseChunks pngBuffer 8 initHeader = Inr st
      \<and> (png_bitDepth st \<noteq> Some 8 \<or> (png_colorType st \<noteq> Some 2 \<and> png_colorType st \<noteq> Some 6))
    \<longrightarrow> vibrantColorFromPng inflate maxLength pngBuffer = Inr \<lparr>r = 0, g = 0, b = 0\<rparr>)
   \<and> (parseChunks pngBuffer 8 initHeader = Inr st
      \<and> png_bitDepth st = Some 8 \<and> (png_colorType st = Some 2 \<or> png_colorType st = Some 6)
      \<and> inflate (concat (png_idatChunks st)) = Some raw
      \<and> png_height st * (png_width st * pngChannels st) \<le> maxLength
      \<and> (\<forall>i. sampledPixel st i \<longrightarrow> \<not> vibrantPixel (decodedPixels raw st) (pngChannels st) i)
    \<longrightarrow> vibrantColorFromPng inflate maxLength pngBuffer = Inr \<lparr>r = 0, g = 0, b = 0\<rparr>)"
proof -
  have 1: "vibrantColorFromPng inflate maxLength
          (sig @ concat (map encodeChunk ((IHDR, dat, crc) # cks))) = Inr \<lparr>r = 0, g = 0, b = 0\<rparr>"
    if h: "length sig = 8" "wellFormedChunk (IHDR, dat, crc)"
      "\<forall>ck \<in> set cks. wellFormedChunk ck \<and> fst ck \<noteq> IHDR"
      "dat ! 8 \<noteq> 8 \<or> (dat ! 9 \<noteq> 2 \<and> dat ! 9 \<noteq> 6)"
    by (rule vibrantColorFromPng_unsupported[OF parseChunks_png[OF h(1,2,3)]]) (use h(4) in simp)
  have 2: "vibrantColorFromPng inflate maxLength pngBuffer = Inr \<lparr>r = 0, g = 0, b = 0\<rparr>"
    if "parseChunks pngBuffer 8 initHeader = Inr st"
      "png_bitDepth st \<noteq> Some 8 \<or> (png_colorType st \<noteq> Some 2 \<and> png_colorType st \<noteq> Some 6)"
    using vibrantColorFromPng_unsupported[OF that] .
  have 3: "vibrantColorFromPng inflate maxLength pngBuffer = Inr \<lparr>r = 0, g = 0, b = 0\<rparr>"
    if "parseChunks pngBuffer 8 initHeader = Inr st"
      "png_bitDepth st = Some 8" "png_colorType st = Some 2 \<or> png_colorType st = Some 6"
      "inflate (concat (png_idatChunks st)) = Some raw"
      "png_height st * (png_width st * pngChannels st) \<le> maxLength"
      "\<forall>i. sampledPixel st i \<longrightarrow> \<not> vibrantPixel (decodedPixels raw st) (pngChannels st) i"
    using that vibrantColorFromPng_no_vibrant[where pngBuffer = pngBuffer and st = st
        and inflate = inflate and raw = raw and maxLength = maxLength] by blast
  from 1 2 3 show ?thesis by blast
qed


text \<open>
  A stream with a 16-bit \<open>IHDR\<close>, on a platform that would reject any data and allocate
  nothing; and a one-pixel 8-bit RGB image whose only pixel is the dark gray \<open>0A 0A 0A\<close>.
\<close>

theorem vibrantColorFromPng_black_witness:
  "vibrantColorFromPng (\<lambda>d. None) 0
      (pngSig @ concat (map encodeChunk
         [(IHDR, [0, 0, 0, 1, 0, 0, 0, 1, 16, 2, 0, 0, 0], [0, 0, 0, 0]),
          (IDAT, [0xFF, 0xFF], [0, 0, 0, 0]),
          (IEND, [], [0, 0, 0, 0])])) = Inr \<lparr>r = 0, g = 0, b = 0\<rparr>
   \<and> vibrantColorFromPng
        (\<lambda>d. if d = [0x78, 0x01, 0x01, 0x04, 0x00, 0xFB, 0xFF, 0x00, 0x0A, 0x0A, 0x0A,
                       0x00, 0x40, 0x00, 0x1F]
              then Some [0x00, 0x0A, 0x0A, 0x0A] else None) 1000
        (pngSig @ concat (map encodeChunk
           [(IHDR, [0, 0, 0, 1, 0, 0, 0, 1, 8, 2, 0, 0, 0], [0, 0, 0, 0]),
            (IDAT, [0x78, 0x01, 0x01, 0x04, 0x00, 0xFB, 0xFF, 0x00, 0x0A, 0x0A, 0x0A,
                    0x00, 0x40, 0x00, 0x1F], [0, 0, 0, 0]),
            (IEND, [], [0, 0, 0, 0])])) = Inr \<lparr>r = 0, g = 0, b = 0\<rparr>"
proof -
  define z :: "byte list" where "z = [0x78, 0x01, 0x01, 0x04, 0x00, 0xFB, 0xFF, 0x00, 0x0A, 0x0A, 0x0A,
                             0x00, 0x40, 0x00, 0x1F]"
  define inflate where "inflate = (\<lambda>d. if d = z then Some [0x00, 0x0A, 0x0A, 0x0A :: byte] else None)"
  define hdr :: "byte list" where "hdr = [0, 0, 0, 1, 0, 0, 0, 1, 8, 2, 0, 0, 0]"
  define st where "st = \<lparr>png_width = 1, png_height = 1, png_bitDepth = Some 8,
      png_colorType = Some 2, png_idatChunks = [z]\<rparr>"
  define buf where "buf = pngSig @ concat (map encodeChunk
           ((IHDR, hdr, [0, 0, 0, 0]) # [(IDAT, z, [0, 0, 0, 0]), (IEND, [], [0, 0, 0, 0])]))"
  have l: "length pngSig = 8" by (simp add: pngSig_def)
  have w1: "wellFormedChunk (IHDR, [0, 0, 0, 1, 0, 0, 0, 1, 16, 2, 0, 0, 0], [0, 0, 0, 0])"
    by (simp add: wellFormedChunk_def IHDR_def)
  have w2: "\<forall>ck \<in> set [(IDAT, [0xFF, 0xFF], [0, 0, 0, 0]), (IEND, [], [0, 0, 0, 0])].
      wellFormedChunk ck \<and> fst ck \<noteq> IHDR"
    by (simp add: wellFormedChunk_def IHDR_def IDAT_def IEND_def)
  have d: "[0, 0, 0, 1, 0, 0, 0, 1, 16, 2, 0, 0, 0] ! 8 \<noteq> (8 :: byte)" by simp
  from vibrantColorFromPng_black[where sig = pngSig
      and dat = "[0, 0, 0, 1, 0, 0, 0, 1, 16, 2, 0, 0, 0]" and crc = "[0, 0, 0, 0]"
      and cks = "[(IDAT, [0xFF, 0xFF], [0, 0, 0, 0]), (IEND, [], [0, 0, 0, 0])]"
      and inflate = "\<lambda>d. None" and maxLength = 0] l w1 w2 d
  have a: "vibrantColorFromPng (\<lambda>d. None) 0
      (pngSig @ concat (map encodeChunk
         ((IHDR, [0, 0, 0, 1, 0, 0, 0, 1, 16, 2, 0, 0, 0], [0, 0, 0, 0])
          # [(IDAT, [0xFF, 0xFF], [0, 0, 0, 0]), (IEND, [], [0, 0, 0, 0])])))
      = Inr \<lparr>r = 0, g = 0, b = 0\<rparr>" by blast
  have w3: "wellFormedChunk (IHDR, hdr, [0, 0, 0, 0])"
    by (simp add: wellFormedChunk_def IHDR_def hdr_def)
  have w4: "\<forall>ck \<in> set [(IDAT, z, [0, 0, 0, 0]), (IEND, [], [0, 0, 0, 0])].
      wellFormedChunk ck \<and> fst ck \<noteq> IHDR"
    by (simp add: wellFormedChunk_def IHDR_def IDAT_def IEND_def z_def)
  have i: "idatData [(IDAT, z, [0, 0, 0, 0]), (IEND, [], [0, 0, 0, 0])] = [z]"
    by (simp add: idatData_def IDAT_def IEND_def)
  have hv: "be32val hdr 0 = 1" "be32val hdr 4 = 1" "hdr ! 8 = 8" "hdr ! 9 = 2"
    by (simp_all add: be32val_def hdr_def)
  have p: "parseChunks buf 8 initHeader = Inr st"
    unfolding buf_def parseChunks_png[OF l w3 w4] i hv st_def ..
  have h2: "png_bitDepth st = Some 8" "png_colorType st = Some 2 \<or> png_colorType st = Some 6"
    by (simp_all add: st_def)
  have ch: "pngChannels st = 3" by (simp add: pngChannels_def st_def)
  have h3: "inflate (concat (png_idatChunks st)) = Some [0x00, 0x0A, 0x0A, 0x0A]"
    by (simp add: st_def inflate_def)
  have h4: "png_height st * (png_width st * pngChannels st) \<le> 1000"
    unfolding ch by (simp add: st_def)
  have px: "decodedPixels [0x00, 0x0A, 0x0A, 0x0A] st = [0x0A, 0x0A, 0x0A]"
    unfolding decodedPixels_def ch
    by (simp add: st_def defilterLoop.simps rowLoop.simps u8_def reconByte_def Let_def
        numeral_3_eq_3)
  have h5: "\<forall>i. sampledPixel st i \<longrightarrow>
      \<not> vibrantPixel (decodedPixels [0x00, 0x0A, 0x0A, 0x0A] st) (pngChannels st) i"
    unfolding px ch by (auto simp: sampledPixel_def st_def vibrantPixel_def Let_def)
  from vibrantColorFromPng_black[where pngBuffer = buf and st = st and inflate = inflate
      and maxLength = 1000 and raw = "[0x00, 0x0A, 0x0A, 0x0A]"] p h2 h3 h4 h5
  have b: "vibrantColorFromPng inflate 1000 buf = Inr \<lparr>r = 0, g = 0, b = 0\<rparr>" by blast
  from a b show ?thesis unfolding buf_def inflate_def z_def hdr_def by simp
qed

end
